theory Spec2Isabelle
  imports Complex_Main "HOL-Library.Monad_Syntax"
begin

section \<open>Hand landmarks and the gesture helpers\<close>

text \<open>
  A landmark is a point of the detector's output. Only the x and y coordinates are read
  by the gesture code. Coordinates are JavaScript numbers; they are idealised here as
  real numbers, so \<open>Math.hypot\<close> is the exact Euclidean norm. Frame timestamps
  (\<open>Date.now()\<close>) and all counters are integers.

  The landmark set is a JavaScript array (\<open>any[]\<close>): reading an index past its end gives
  \<open>undefined\<close>, and reading a coordinate of \<open>undefined\<close> throws a TypeError. The
  helpers therefore return an option, \<open>None\<close> standing for the thrown TypeError.
\<close>

record landmark =
  xc :: real
  yc :: real

type_synonym landmarks = "landmark list"

definition hypot :: "real \<Rightarrow> real \<Rightarrow> real" where
  "hypot a b = sqrt (a\<^sup>2 + b\<^sup>2)"

definition lmAt :: "landmarks \<Rightarrow> nat \<Rightarrow> landmark option" where
  "lmAt lm i = (if i < length lm then Some (lm ! i) else None)"

definition tips :: "nat list" where
  "tips = [8, 12, 16, 20]"

definition pips :: "nat list" where
  "pips = [6, 10, 14, 18]"

text \<open>
  \<open>Math.hypot(p.x - wrist.x, p.y - wrist.y)\<close> for \<open>p = lm[i]\<close> and
  \<open>wrist = lm[0]\<close>: the expression that every helper evaluates for a tip or a PIP joint.
\<close>

definition dWrist :: "landmarks \<Rightarrow> nat \<Rightarrow> real option" where
  "dWrist lm i = do {
     p \<leftarrow> lmAt lm i;
     wrist \<leftarrow> lmAt lm 0;
     Some (hypot (xc p - xc wrist) (yc p - yc wrist))
   }"

text \<open>FittingRoom.tsx, \<open>countExtendedFingers\<close>: the \<open>for\<close> loop over the four fingers.\<close>

fun countFrom :: "landmarks \<Rightarrow> (nat \<times> nat) list \<Rightarrow> int \<Rightarrow> int option" where
  "countFrom lm [] count = Some count"
| "countFrom lm ((tip, pip) # rest) count = do {
     dTip \<leftarrow> dWrist lm tip;
     dPip \<leftarrow> dWrist lm pip;
     countFrom lm rest (if dTip > dPip then count + 1 else count)
   }"

definition countExtendedFingers :: "landmarks \<Rightarrow> int option" where
  "countExtendedFingers lm = countFrom lm (zip tips pips) 0"


text \<open>
  FittingRoom.tsx, \<open>isThumbsUp\<close>. \<open>tips.every\<close> stops at the first finger that is not
  folded.
\<close>

fun everyFolded :: "landmarks \<Rightarrow> (nat \<times> nat) list \<Rightarrow> bool option" where
  "everyFolded lm [] = Some True"
| "everyFolded lm ((tip, pip) # rest) = do {
     dTip \<leftarrow> dWrist lm tip;
     dPip \<leftarrow> dWrist lm pip;
     if dTip < dPip then everyFolded lm rest else Some False
   }"

definition isThumbsUp :: "landmarks \<Rightarrow> bool option" where
  "isThumbsUp lm = do {
     thumbTip \<leftarrow> lmAt lm 4;
     thumbMcp \<leftarrow> lmAt lm 2;
     let thumbPointingUp = (yc thumbTip < yc thumbMcp - 0.04);
     fingersFolded \<leftarrow> everyFolded lm (zip tips pips);
     Some (thumbPointingUp \<and> fingersFolded)
   }"




text \<open>
  The specification's wording of finger extension, for a landmark set with all 21 points:
  a finger is extended iff its tip is strictly farther from the wrist than its PIP joint.
\<close>

definition distToWrist :: "landmarks \<Rightarrow> nat \<Rightarrow> real" where
  "distToWrist lm i = hypot (xc (lm ! i) - xc (lm ! 0)) (yc (lm ! i) - yc (lm ! 0))"

definition extended :: "landmarks \<Rightarrow> nat \<times> nat \<Rightarrow> bool" where
  "extended lm f = (distToWrist lm (fst f) > distToWrist lm (snd f))"

definition fingers :: "(nat \<times> nat) list" where
  "fingers = [(8, 6), (12, 10), (16, 14), (20, 18)]"


section \<open>Catalog data\<close>

text \<open>
  catalog.ts. Of a scene and a clothing item only the fields that the state machine and
  the generation batch pass around are kept; the display fields (Hebrew labels, emoji,
  price, colour, tags) are left out.
\<close>

record Scene =
  sceneId :: string
  prompt :: string

record ClothingItem =
  itemId :: string
  name :: string
  brand :: string
  imageUrl :: string
  scenes :: "Scene list"

definition SCENES :: "Scene list" where
  "SCENES =
    [\<lparr>sceneId = ''street'',
      prompt = ''a stylish urban street in Tel Aviv, golden hour lighting, city vibes''\<rparr>,
     \<lparr>sceneId = ''cafe'',
      prompt = ''a cozy modern coffee shop, warm light, cappuccino on the table, relaxed atmosphere''\<rparr>,
     \<lparr>sceneId = ''beach'',
      prompt = ''a beautiful Mediterranean beach in Israel, blue sea, sunny day, white sand''\<rparr>,
     \<lparr>sceneId = ''office'',
      prompt = ''a modern tech startup office, large windows, professional yet casual environment''\<rparr>]"

definition CATALOG :: "ClothingItem list" where
  "CATALOG =
    [\<lparr>itemId = ''1'', name = ''White Linen Shirt'', brand = ''Zara'',
      imageUrl = ''https://images.unsplash.com/photo-1596755094514-f87e34085b2c?w=400&h=500&fit=crop'',
      scenes = SCENES\<rparr>,
     \<lparr>itemId = ''2'', name = ''Black Slim Jeans'', brand = ''Levis'',
      imageUrl = ''https://images.unsplash.com/photo-1542272604-787c3835535d?w=400&h=500&fit=crop'',
      scenes = SCENES\<rparr>,
     \<lparr>itemId = ''3'', name = ''Floral Summer Dress'', brand = ''H&M'',
      imageUrl = ''https://images.unsplash.com/photo-1572804013309-59a88b7e92f1?w=400&h=500&fit=crop'',
      scenes = SCENES\<rparr>,
     \<lparr>itemId = ''4'', name = ''Beige Oversized Blazer'', brand = ''Mango'',
      imageUrl = ''https://images.unsplash.com/photo-1591047139829-d91aecb6caea?w=400&h=500&fit=crop'',
      scenes = SCENES\<rparr>,
     \<lparr>itemId = ''5'', name = ''Navy Striped T-Shirt'', brand = ''Gap'',
      imageUrl = ''https://images.unsplash.com/photo-1503341504253-dff4815485f1?w=400&h=500&fit=crop'',
      scenes = SCENES\<rparr>,
     \<lparr>itemId = ''6'', name = ''Midi Leather Skirt'', brand = ''Zara'',
      imageUrl = ''https://images.unsplash.com/photo-1583496661160-fb5886a0aaaa?w=400&h=500&fit=crop'',
      scenes = SCENES\<rparr>,
     \<lparr>itemId = ''7'', name = ''Olive Cargo Pants'', brand = ''Pull&Bear'',
      imageUrl = ''https://images.unsplash.com/photo-1624378439575-d8705ad7ae80?w=400&h=500&fit=crop'',
      scenes = SCENES\<rparr>,
     \<lparr>itemId = ''8'', name = ''White Sneakers'', brand = ''Nike'',
      imageUrl = ''https://images.unsplash.com/photo-1542291026-7eec264c27ff?w=400&h=500&fit=crop'',
      scenes = SCENES\<rparr>,
     \<lparr>itemId = ''9'', name = ''Knit Cream Sweater'', brand = ''COS'',
      imageUrl = ''https://images.unsplash.com/photo-1576566588028-4147f3842f27?w=400&h=500&fit=crop'',
      scenes = SCENES\<rparr>,
     \<lparr>itemId = ''10'', name = ''Denim Jacket'', brand = ''Levis'',
      imageUrl = ''https://images.unsplash.com/photo-1551537482-f2075a1d41f2?w=400&h=500&fit=crop'',
      scenes = SCENES\<rparr>]"

section \<open>The generation batch (imagenService.ts)\<close>

record GeneratedLook =
  scene :: Scene
  imageBase64 :: string
  isLoading :: bool
  error :: "string option"

text \<open>The error text of a failed look, as its UTF-8 bytes (the source text is Hebrew).\<close>

definition generationError :: string where
  "generationError = map char_of
     [215, 169, 215, 146, 215, 153, 215, 144, 215, 148, 32, 215, 145, 215, 153, 215, 153,
      215, 166, 215, 149, 215, 168, 32, 215, 148, 215, 170, 215, 158, 215, 149, 215, 160,
      215, 148 :: nat]"

definition loadingLook :: "Scene \<Rightarrow> GeneratedLook" where
  "loadingLook sc = \<lparr>scene = sc, imageBase64 = [], isLoading = True, error = None\<rparr>"

text \<open>
  One call of \<open>generateAllLooks\<close>, as the closure it leaves behind while its
  per-scene calls are in flight: the scenes of the item, the local \<open>results\<close> array,
  which of the per-scene promises have settled, and whether the caller's continuation
  after \<open>await\<close> has run.
\<close>

record Batch =
  batchScenes :: "Scene list"
  batchResults :: "GeneratedLook list"
  settled :: "bool list"
  finished :: bool

text \<open>
  The outcome of one \<open>generateLook\<close> call, an external collaborator: \<open>Some url\<close> when
  the promise is fulfilled with an image data URL, \<open>None\<close> when it is rejected.
  \<open>settleLook\<close> is the body of the per-scene async function after its \<open>await\<close>:
  both branches of the \<open>try\<close>/\<open>catch\<close> write slot \<open>index\<close> of \<open>results\<close>.
\<close>

definition settledLook :: "Scene \<Rightarrow> string option \<Rightarrow> GeneratedLook" where
  "settledLook sc outcome =
     (case outcome of
        Some imageDataUrl \<Rightarrow> \<lparr>scene = sc, imageBase64 = imageDataUrl, isLoading = False, error = None\<rparr>
      | None \<Rightarrow> \<lparr>scene = sc, imageBase64 = [], isLoading = False, error = Some generationError\<rparr>)"

definition settleLook :: "nat \<Rightarrow> string option \<Rightarrow> Batch \<Rightarrow> Batch" where
  "settleLook index outcome b =
     b\<lparr>batchResults := (batchResults b)[index := settledLook (batchScenes b ! index) outcome],
       settled := (settled b)[index := True]\<rparr>"

definition newBatch :: "Scene list \<Rightarrow> Batch" where
  "newBatch scs =
     \<lparr>batchScenes = scs, batchResults = map loadingLook scs,
      settled = map (\<lambda>_. False) scs, finished = False\<rparr>"

definition allSettled :: "Batch \<Rightarrow> bool" where
  "allSettled b = list_all (\<lambda>x. x) (settled b)"


section \<open>The fitting-room component (FittingRoom.tsx)\<close>

datatype Phase = Catalog | Capturing | Generating | Results

record SwipeState =
  startX :: real
  startTime :: int
  isTracking :: bool

text \<open>The callbacks that the component hands to \<open>setTimeout\<close>.\<close>

datatype Timer = ClearCatalogCooldown | ClearPostResetCooldown | CountdownTick

text \<open>The calls that the gesture handler and the buttons make, kept as a trace.\<close>

datatype Call =
    CallGoNext | CallGoPrev | CallStartCapture | CallReset | CallSetSelectedLookIndex int

text \<open>
  The component's state: the React state variables, the refs, and the environment that
  the component's closures live in: the pending timers with their due times, the
  generation batches in flight, the dependency value of the countdown effect's last run,
  the trace of calls, and the time of the last event. A state variable holds the value
  last set; the refs that mirror state (\<open>phaseRef\<close>, \<open>currentItemRef\<close>,
  \<open>selectedIndexRef\<close>) follow at the next commit, when their effects run. The
  share toast is left out.
\<close>

record FittingRoom =
  phase :: Phase
  currentIndex :: nat
  countdown :: "int option"
  capturedPhoto :: "string option"
  generatedLooks :: "GeneratedLook list"
  selectedLookIndex :: int
  thumbsUpProgress :: real
  liveFingerCount :: "int option"
  phaseRef :: Phase
  catalogCooldown :: bool
  postResetCooldown :: bool
  requireOpenHandAfterReset :: bool
  fistStartTime :: "int option"
  thumbsUpBuffer :: int
  fingerBuffer :: "int list"
  currentItemRef :: "ClothingItem option"
  selectedIndexRef :: int
  swipeState :: SwipeState
  countdownDep :: "int option"
  timers :: "(int \<times> Timer) list"
  batches :: "Batch list"
  calls :: "Call list"
  clock :: int

definition COUNTDOWN_SECONDS :: int where
  "COUNTDOWN_SECONDS = 3"

definition FINGER_STABLE_FRAMES :: nat where
  "FINGER_STABLE_FRAMES = 8"

definition THUMBS_UP_FRAMES :: int where
  "THUMBS_UP_FRAMES = 10"

definition arrayAt :: "'a list \<Rightarrow> nat \<Rightarrow> 'a option" where
  "arrayAt xs i = (if i < length xs then Some (xs ! i) else None)"

definition initial :: FittingRoom where
  "initial =
     \<lparr>phase = Catalog, currentIndex = 0, countdown = None, capturedPhoto = None,
      generatedLooks = [], selectedLookIndex = 0, thumbsUpProgress = 0,
      liveFingerCount = None, phaseRef = Catalog, catalogCooldown = False,
      postResetCooldown = False, requireOpenHandAfterReset = False, fistStartTime = None,
      thumbsUpBuffer = 0, fingerBuffer = [], currentItemRef = arrayAt CATALOG 0,
      selectedIndexRef = 0,
      swipeState = \<lparr>startX = 0, startTime = 0, isTracking = False\<rparr>,
      countdownDep = None, timers = [], batches = [], calls = [], clock = 0\<rparr>"

text \<open>\<open>setTimeout(cb, delay)\<close> called at time \<open>now\<close>.\<close>

definition setTimeout :: "int \<Rightarrow> Timer \<Rightarrow> int \<Rightarrow> FittingRoom \<Rightarrow> FittingRoom" where
  "setTimeout now cb delay s = s\<lparr>timers := timers s @ [(now + delay, cb)]\<rparr>"

definition called :: "Call \<Rightarrow> FittingRoom \<Rightarrow> FittingRoom" where
  "called c s = s\<lparr>calls := calls s @ [c]\<rparr>"

definition reset :: "int \<Rightarrow> FittingRoom \<Rightarrow> FittingRoom" where
  "reset now s =
     setTimeout now ClearPostResetCooldown 500
       ((called CallReset s)
          \<lparr>phase := Catalog, capturedPhoto := None, generatedLooks := [],
           selectedLookIndex := 0, countdown := None, thumbsUpProgress := 0,
           fistStartTime := None, thumbsUpBuffer := 0, fingerBuffer := [],
           postResetCooldown := True, requireOpenHandAfterReset := True\<rparr>)"

definition goNext :: "int \<Rightarrow> FittingRoom \<Rightarrow> FittingRoom" where
  "goNext now s0 =
     (let s = called CallGoNext s0 in
      if catalogCooldown s \<or> phaseRef s \<noteq> Catalog then s
      else setTimeout now ClearCatalogCooldown 800
             (s\<lparr>catalogCooldown := True,
                currentIndex := (currentIndex s + 1) mod length CATALOG\<rparr>))"

definition goPrev :: "int \<Rightarrow> FittingRoom \<Rightarrow> FittingRoom" where
  "goPrev now s0 =
     (let s = called CallGoPrev s0 in
      if catalogCooldown s \<or> phaseRef s \<noteq> Catalog then s
      else setTimeout now ClearCatalogCooldown 800
             (s\<lparr>catalogCooldown := True,
                currentIndex :=
                  nat ((int (currentIndex s) - 1 + int (length CATALOG)) mod int (length CATALOG))\<rparr>))"

definition startCapture :: "FittingRoom \<Rightarrow> FittingRoom" where
  "startCapture s0 =
     (let s = called CallStartCapture s0 in
      if phaseRef s \<noteq> Catalog then s
      else s\<lparr>phase := Capturing, countdown := Some COUNTDOWN_SECONDS\<rparr>)"

text \<open>
  \<open>startGeneration\<close> up to its \<open>await\<close>, with the synchronous part of
  \<open>generateAllLooks\<close>: the phase is set before \<open>item.scenes\<close> is read, so an
  undefined item leaves the phase at generating with no batch started.
\<close>

definition startGeneration :: "string \<Rightarrow> FittingRoom \<Rightarrow> FittingRoom" where
  "startGeneration photoDataUrl s =
     (case currentItemRef s of
        None \<Rightarrow> s\<lparr>phase := Generating\<rparr>
      | Some item \<Rightarrow>
          s\<lparr>phase := Generating,
            generatedLooks := map loadingLook (scenes item),
            batches := batches s @ [newBatch (scenes item)]\<rparr>)"

text \<open>
  \<open>takePhoto\<close>: \<open>snap\<close> is the data URL that the canvas yields, or \<open>None\<close> when the
  video element, the canvas or its 2-D context is missing and the function returns early.
\<close>

definition takePhoto :: "string option \<Rightarrow> FittingRoom \<Rightarrow> FittingRoom" where
  "takePhoto snap s =
     (case snap of
        None \<Rightarrow> s
      | Some dataUrl \<Rightarrow> startGeneration dataUrl (s\<lparr>capturedPhoto := Some dataUrl, countdown := None\<rparr>))"

subsection \<open>The per-frame gesture handler\<close>

text \<open>
  \<open>processLandmarks\<close>, catalog phase, the fist branch (source lines 238 to 245): the
  cooldown flag that \<open>goNext\<close> and \<open>goPrev\<close> use is tested and set here as well.
\<close>

definition catalogFist :: "int \<Rightarrow> FittingRoom \<Rightarrow> FittingRoom" where
  "catalogFist now s0 =
     (let s = s0\<lparr>swipeState := (swipeState s0)\<lparr>isTracking := False\<rparr>\<rparr> in
      if \<not> catalogCooldown s
      then setTimeout now ClearCatalogCooldown 1200 (startCapture (s\<lparr>catalogCooldown := True\<rparr>))
      else s)"

text \<open>
  \<open>processLandmarks\<close>, catalog phase, the swipe branch (source lines 246 to 269), with
  \<open>currentX = lm[9].x\<close> and \<open>now = Date.now()\<close>.
\<close>

definition catalogSwipe :: "int \<Rightarrow> real \<Rightarrow> FittingRoom \<Rightarrow> FittingRoom" where
  "catalogSwipe now currentX s =
     (if \<not> isTracking (swipeState s)
      then s\<lparr>swipeState := \<lparr>startX = currentX, startTime = now, isTracking = True\<rparr>\<rparr>
      else
        let deltaX = currentX - startX (swipeState s);
            elapsed = now - startTime (swipeState s)
        in if elapsed < 500
           then if deltaX < - 0.15
                then (let s1 = goNext now s
                      in s1\<lparr>swipeState := (swipeState s1)\<lparr>isTracking := False\<rparr>\<rparr>)
                else if deltaX > 0.15
                then (let s1 = goPrev now s
                      in s1\<lparr>swipeState := (swipeState s1)\<lparr>isTracking := False\<rparr>\<rparr>)
                else s
           else s\<lparr>swipeState := \<lparr>startX = currentX, startTime = now, isTracking = True\<rparr>\<rparr>)"

text \<open>
  \<open>processLandmarks\<close>, results phase with a hand (source lines 284 to 321), given the
  values of \<open>isThumbsUp(lm)\<close> and \<open>countExtendedFingers(lm)\<close>.
\<close>

definition resultsGesture :: "int \<Rightarrow> bool \<Rightarrow> int \<Rightarrow> FittingRoom \<Rightarrow> FittingRoom" where
  "resultsGesture now thumbUp count s =
     (if thumbUp
      then
        let b = min (thumbsUpBuffer s + 1) THUMBS_UP_FRAMES;
            s1 = s\<lparr>thumbsUpBuffer := b,
                   thumbsUpProgress := real_of_int b / real_of_int THUMBS_UP_FRAMES,
                   liveFingerCount := None,
                   fingerBuffer := []\<rparr>
        in if thumbsUpBuffer s1 \<ge> THUMBS_UP_FRAMES
           then reset now (s1\<lparr>thumbsUpBuffer := 0\<rparr>)
           else s1
      else
        let b = max (thumbsUpBuffer s - 1) 0;
            s1 = s\<lparr>thumbsUpBuffer := b,
                   thumbsUpProgress := real_of_int b / real_of_int THUMBS_UP_FRAMES\<rparr>
        in if count \<ge> 1 \<and> count \<le> 4
           then
             let buf = drop (length (fingerBuffer s1) - (FINGER_STABLE_FRAMES - 1)) (fingerBuffer s1)
                         @ [count];
                 s2 = s1\<lparr>liveFingerCount := Some count, fingerBuffer := buf\<rparr>
             in if length buf \<ge> FINGER_STABLE_FRAMES
                   \<and> list_all (\<lambda>c. c = count) buf
                   \<and> count - 1 \<noteq> selectedIndexRef s2
                then (called (CallSetSelectedLookIndex (count - 1)) s2)
                       \<lparr>selectedLookIndex := count - 1\<rparr>
                else s2
           else s1\<lparr>liveFingerCount := None, fingerBuffer := []\<rparr>)"

text \<open>
  \<open>processLandmarks(lm)\<close> called at time \<open>now\<close>; \<open>None\<close> is the TypeError of a landmark
  set that is too short, thrown before anything is written.
\<close>

definition processLandmarks :: "int \<Rightarrow> landmarks option \<Rightarrow> FittingRoom \<Rightarrow> FittingRoom option" where
  "processLandmarks now lmo s =
     (if phaseRef s = Catalog then
        (case lmo of
           None \<Rightarrow> Some (s\<lparr>swipeState := (swipeState s)\<lparr>isTracking := False\<rparr>\<rparr>)
         | Some lm \<Rightarrow>
             if postResetCooldown s then Some s
             else do {
               fingerCount \<leftarrow> countExtendedFingers lm;
               let fist = (fingerCount = 0);
               if requireOpenHandAfterReset s \<and> \<not> fingerCount \<ge> 3 then Some s
               else
                 let s1 = (if requireOpenHandAfterReset s
                           then s\<lparr>requireOpenHandAfterReset := False\<rparr> else s)
                 in if fist then Some (catalogFist now s1)
                    else do {
                      p \<leftarrow> lmAt lm 9;
                      Some (catalogSwipe now (xc p) s1)
                    }
             })
      else if phaseRef s = Results then
        (case lmo of
           None \<Rightarrow>
             Some (s\<lparr>thumbsUpBuffer := 0, fingerBuffer := [], thumbsUpProgress := 0,
                     liveFingerCount := None\<rparr>)
         | Some lm \<Rightarrow> do {
             thumbUp \<leftarrow> isThumbsUp lm;
             count \<leftarrow> countExtendedFingers lm;
             Some (resultsGesture now thumbUp count s)
           })
      else Some s)"

subsection \<open>Effects, timers and events\<close>

text \<open>
  One React commit at time \<open>now\<close>: the three effects that copy state into the refs, then
  the countdown effect. The countdown effect runs only when \<open>countdown\<close> differs from
  its value at the last run; its cleanup clears the tick it had scheduled. \<open>snap\<close> is the
  camera snapshot available to \<open>takePhoto\<close> in this commit.
\<close>

definition syncRefs :: "FittingRoom \<Rightarrow> FittingRoom" where
  "syncRefs s =
     s\<lparr>phaseRef := phase s,
       currentItemRef := arrayAt CATALOG (currentIndex s),
       selectedIndexRef := selectedLookIndex s\<rparr>"

definition countdownEffect :: "int \<Rightarrow> string option \<Rightarrow> FittingRoom \<Rightarrow> FittingRoom" where
  "countdownEffect now snap s =
     (if countdownDep s = countdown s then s
      else
        let s1 = s\<lparr>countdownDep := countdown s,
                   timers := filter (\<lambda>t. snd t \<noteq> CountdownTick) (timers s)\<rparr>
        in case countdown s1 of
             None \<Rightarrow> s1
           | Some c \<Rightarrow>
               if c = 0 then takePhoto snap s1
               else setTimeout now CountdownTick 1000 s1)"

definition render :: "int \<Rightarrow> string option \<Rightarrow> FittingRoom \<Rightarrow> FittingRoom" where
  "render now snap s = countdownEffect now snap (syncRefs s)"

fun timerCallback :: "Timer \<Rightarrow> FittingRoom \<Rightarrow> FittingRoom" where
  "timerCallback ClearCatalogCooldown s = s\<lparr>catalogCooldown := False\<rparr>"
| "timerCallback ClearPostResetCooldown s = s\<lparr>postResetCooldown := False\<rparr>"
| "timerCallback CountdownTick s =
     s\<lparr>countdown := (case countdown s of Some c \<Rightarrow> Some (c - 1) | None \<Rightarrow> None)\<rparr>"

definition fireTimer :: "nat \<Rightarrow> FittingRoom \<Rightarrow> FittingRoom" where
  "fireTimer k s =
     timerCallback (snd (timers s ! k)) (s\<lparr>timers := take k (timers s) @ drop (Suc k) (timers s)\<rparr>)"

text \<open>
  Completion of the per-scene call \<open>index\<close> of batch \<open>b\<close>: the slot of the batch's own
  \<open>results\<close> array is written and \<open>onProgress\<close> copies the array into
  \<open>generatedLooks\<close>. \<open>batchDone\<close> is the continuation of \<open>startGeneration\<close> after
  its \<open>await\<close>.
\<close>

definition lookSettled :: "nat \<Rightarrow> nat \<Rightarrow> string option \<Rightarrow> FittingRoom \<Rightarrow> FittingRoom" where
  "lookSettled b index outcome s =
     (let bt = settleLook index outcome (batches s ! b)
      in s\<lparr>batches := (batches s)[b := bt], generatedLooks := batchResults bt\<rparr>)"

definition batchDone :: "nat \<Rightarrow> FittingRoom \<Rightarrow> FittingRoom" where
  "batchDone b s =
     s\<lparr>batches := (batches s)[b := (batches s ! b)\<lparr>finished := True\<rparr>],
       phase := Results, selectedLookIndex := 0\<rparr>"

text \<open>
  The events that reach the component: a detector frame, a React commit, a timer that
  fires, a click on one of the buttons, the completion of a per-scene generation call, and
  the resumption of \<open>startGeneration\<close> once its batch has settled.
\<close>

datatype Event =
    Frame "landmarks option"
  | Render "string option"
  | Timeout nat
  | ClickPrev
  | ClickNext
  | ClickCapture
  | ClickDot nat
  | ClickReset
  | ClickLook nat
  | LookSettled nat nat "string option"
  | BatchDone nat

text \<open>
  What each event does at time \<open>now\<close>. A frame whose landmark set is too short throws
  out of the handler and leaves the state as it was.
\<close>

fun handle :: "int \<Rightarrow> Event \<Rightarrow> FittingRoom \<Rightarrow> FittingRoom" where
  "handle now (Frame lmo) s = (case processLandmarks now lmo s of Some s1 \<Rightarrow> s1 | None \<Rightarrow> s)"
| "handle now (Render snap) s = render now snap s"
| "handle now (Timeout k) s = fireTimer k s"
| "handle now ClickPrev s = goPrev now s"
| "handle now ClickNext s = goNext now s"
| "handle now ClickCapture s = startCapture s"
| "handle now (ClickDot i) s = s\<lparr>currentIndex := i\<rparr>"
| "handle now ClickReset s = reset now s"
| "handle now (ClickLook i) s = s\<lparr>selectedLookIndex := int i\<rparr>"
| "handle now (LookSettled b index outcome) s = lookSettled b index outcome s"
| "handle now (BatchDone b) s = batchDone b s"

text \<open>
  When an event can happen. A timer fires no earlier than its due time. A button can be
  clicked while the phase that renders it is the current one. A per-scene call settles
  once, and the batch resumes its caller once, after all its calls have settled.
\<close>

fun enabled :: "int \<Rightarrow> FittingRoom \<Rightarrow> Event \<Rightarrow> bool" where
  "enabled now s (Frame lmo) = True"
| "enabled now s (Render snap) = True"
| "enabled now s (Timeout k) = (k < length (timers s) \<and> fst (timers s ! k) \<le> now)"
| "enabled now s ClickPrev = (phase s = Catalog)"
| "enabled now s ClickNext = (phase s = Catalog)"
| "enabled now s ClickCapture = (phase s = Catalog)"
| "enabled now s (ClickDot i) = (phase s = Catalog \<and> i < length CATALOG)"
| "enabled now s ClickReset = (phase s = Results \<and> generatedLooks s \<noteq> [])"
| "enabled now s (ClickLook i) = (phase s = Results \<and> i < length (generatedLooks s))"
| "enabled now s (LookSettled b index outcome) =
     (b < length (batches s) \<and> index < length (settled (batches s ! b))
      \<and> \<not> settled (batches s ! b) ! index)"
| "enabled now s (BatchDone b) =
     (b < length (batches s) \<and> allSettled (batches s ! b) \<and> \<not> finished (batches s ! b))"

definition step :: "int \<times> Event \<Rightarrow> FittingRoom \<Rightarrow> FittingRoom" where
  "step te s = (handle (fst te) (snd te) s)\<lparr>clock := fst te\<rparr>"

definition canStep :: "FittingRoom \<Rightarrow> int \<times> Event \<Rightarrow> bool" where
  "canStep s te = (clock s \<le> fst te \<and> enabled (fst te) s (snd te))"

text \<open>A run is a list of timed events; it is valid when each event can happen in turn.\<close>

fun run :: "(int \<times> Event) list \<Rightarrow> FittingRoom \<Rightarrow> FittingRoom" where
  "run [] s = s"
| "run (te # rest) s = run rest (step te s)"

fun valid :: "(int \<times> Event) list \<Rightarrow> FittingRoom \<Rightarrow> bool" where
  "valid [] s = True"
| "valid (te # rest) s = (canStep s te \<and> valid rest (step te s))"

text \<open>A stream of detector frames, each with its timestamp.\<close>

fun frames :: "(int \<times> landmarks option) list \<Rightarrow> FittingRoom \<Rightarrow> FittingRoom" where
  "frames [] s = s"
| "frames ((now, lmo) # rest) s = frames rest (handle now (Frame lmo) s)"

section \<open>The navigation interpreter (App.tsx)\<close>













section \<open>Sample hands\<close>

text \<open>
  A landmark set with the wrist at the origin, every PIP joint at distance 2 from it, each
  finger tip at distance 3 (extended) or 1 (folded), the thumb tip at \<open>(1, thumbY)\<close>, the
  thumb MCP at the origin and landmark 9 at \<open>(x9, 0)\<close>.
\<close>

definition pt :: "real \<Rightarrow> real \<Rightarrow> landmark" where
  "pt a b = \<lparr>xc = a, yc = b\<rparr>"

definition tipOf :: "bool \<Rightarrow> landmark" where
  "tipOf ext = pt 0 (if ext then 3 else 1)"

definition handOf :: "real \<Rightarrow> real \<Rightarrow> bool \<Rightarrow> bool \<Rightarrow> bool \<Rightarrow> bool \<Rightarrow> landmarks" where
  "handOf x9 thumbY e1 e2 e3 e4 =
     [pt 0 0, pt 0 0, pt 0 0, pt 0 0, pt 1 thumbY, pt 0 0,
      pt 0 2, pt 0 0, tipOf e1, pt x9 0,
      pt 0 2, pt 0 0, tipOf e2, pt 0 0,
      pt 0 2, pt 0 0, tipOf e3, pt 0 0,
      pt 0 2, pt 0 0, tipOf e4]"

definition openHand :: "real \<Rightarrow> landmarks" where
  "openHand x9 = handOf x9 0 True True True True"

definition fistHand :: landmarks where
  "fistHand = handOf 0 0 False False False False"

definition thumbsUpHand :: landmarks where
  "thumbsUpHand = handOf 0 (- 1) False False False False"

definition twoFingers :: landmarks where
  "twoFingers = handOf 0 0 True True False False"

definition threeFingers :: landmarks where
  "threeFingers = handOf 0 0 True True True False"

section \<open>Sample states\<close>

text \<open>The component showing its results, as after a first capture, with nothing else changed.\<close>

definition resultsState :: FittingRoom where
  "resultsState = initial\<lparr>phase := Results, phaseRef := Results\<rparr>"




section \<open>Readings and the stability buffer, as the proofs see them\<close>

text \<open>
  A frame is well formed when it has no hand or all 21 landmarks. Its reading is the finger
  count that the results phase appends to \<open>fingerBuffer\<close>, if it appends one. \<open>push\<close>
  is what one frame does to the buffer: \<open>slice(-7)\<close> and the new count, or the empty
  buffer.
\<close>

definition push :: "int option \<Rightarrow> int list \<Rightarrow> int list" where
  "push r buf = (case r of None \<Rightarrow> [] | Some c \<Rightarrow> drop (length buf - 7) buf @ [c])"

fun pushes :: "int option list \<Rightarrow> int list \<Rightarrow> int list" where
  "pushes [] buf = buf"
| "pushes (r # rs) buf = pushes rs (push r buf)"

definition wellFormed :: "landmarks option \<Rightarrow> bool" where
  "wellFormed lmo = (case lmo of None \<Rightarrow> True | Some lm \<Rightarrow> length lm = 21)"

definition reading :: "landmarks option \<Rightarrow> int option" where
  "reading lmo =
     (case lmo of
        None \<Rightarrow> None
      | Some lm \<Rightarrow>
          (case countExtendedFingers lm of
             None \<Rightarrow> None
           | Some c \<Rightarrow> if 1 \<le> c \<and> c \<le> 4 then Some c else None))"

section \<open>Notions used in the statements about runs\<close>

text \<open>
  The countdown effect takes the photo in this commit: \<open>countdown\<close> has changed since
  the effect last ran, it is 0, and the camera yields a snapshot.
\<close>

definition fires :: "string option \<Rightarrow> FittingRoom \<Rightarrow> bool" where
  "fires snap s = (countdownDep s \<noteq> countdown s \<and> countdown s = Some 0 \<and> snap \<noteq> None)"


definition captures :: "FittingRoom \<Rightarrow> nat" where
  "captures s = count_list (calls s) CallStartCapture"


text \<open>
  The state after a reset at time 0 from the results phase, a commit, and the end of the
  500 ms lockout: the catalog phase with the hand-open gate still armed.
\<close>

definition gateState :: FittingRoom where
  "gateState = fireTimer 0 (render 500 None (reset 0 resultsState))"

text \<open>
  The pending callbacks that clear \<open>catalogCooldown\<close>. In every reachable state there is
  one of them while the flag is set and none while it is not. The cooldown lasts until
  \<open>d\<close> when the flag is set and every one of them is due at \<open>d\<close> or later.
\<close>

definition clears :: "FittingRoom \<Rightarrow> (int \<times> Timer) list" where
  "clears s = filter (\<lambda>tm. snd tm = ClearCatalogCooldown) (timers s)"

definition cooldownInv :: "FittingRoom \<Rightarrow> bool" where
  "cooldownInv s = (length (clears s) = (if catalogCooldown s then 1 else 0))"

definition coolingUntil :: "int \<Rightarrow> FittingRoom \<Rightarrow> bool" where
  "coolingUntil d s = (catalogCooldown s \<and> list_all (\<lambda>tm. d \<le> fst tm) (clears s))"

text \<open>
  A settled look of scene \<open>sc\<close>: not loading, and with no error or with the error text and
  no image. A batch is coherent when its arrays have one slot per scene, every settled slot
  holds a settled look of its scene, and it has resumed its caller only after all slots
  settled.
\<close>

definition lookOk :: "Scene \<Rightarrow> GeneratedLook \<Rightarrow> bool" where
  "lookOk sc l =
     (scene l = sc \<and> \<not> isLoading l
      \<and> (error l = None \<or> (error l = Some generationError \<and> imageBase64 l = [])))"

definition batchOk :: "Batch \<Rightarrow> bool" where
  "batchOk b =
     (length (batchResults b) = length (batchScenes b)
      \<and> length (settled b) = length (batchScenes b)
      \<and> (finished b \<longrightarrow> allSettled b)
      \<and> (\<forall>i < length (batchScenes b).
            settled b ! i \<longrightarrow> lookOk (batchScenes b ! i) (batchResults b ! i)))"

text \<open>
  What holds in every reachable state: \<open>phaseRef\<close> lags at most one transition behind
  \<open>phase\<close>, a countdown runs only while capturing, at most the latest batch has not yet
  resumed its caller, and then the phase is generating and \<open>generatedLooks\<close> is that
  batch's result array.
\<close>

definition inv :: "FittingRoom \<Rightarrow> bool" where
  "inv s =
     ((phaseRef s = Results \<longrightarrow> phase s = Results \<or> phase s = Catalog)
      \<and> (phaseRef s = Catalog \<longrightarrow> phase s = Catalog \<or> phase s = Capturing)
      \<and> (countdown s \<noteq> None \<longrightarrow> phase s = Capturing)
      \<and> (\<forall>i < length (batches s). \<not> finished (batches s ! i)
            \<longrightarrow> Suc i = length (batches s) \<and> phase s = Generating
                \<and> generatedLooks s = batchResults (batches s ! i))
      \<and> list_all batchOk (batches s))"

text \<open>
  One full pass through the fitting room: a fist starts the capture, the countdown ticks
  three times, the photo is taken, the four scenes settle (the third first, the second with
  a failure), the batch resumes its caller, and the back button resets.
\<close>

definition cycle :: "(int \<times> Event) list" where
  "cycle =
     [(0, Frame (Some fistHand)), (0, Render None),
      (1000, Timeout 1), (1000, Render None),
      (2000, Timeout 1), (2000, Render None),
      (3000, Timeout 1), (3000, Render (Some ''photo'')),
      (3500, LookSettled 0 2 (Some ''img2'')), (3600, LookSettled 0 0 (Some ''img0'')),
      (3700, LookSettled 0 1 None), (3800, LookSettled 0 3 (Some ''img3'')),
      (3800, BatchDone 0), (3900, Render None), (4000, ClickReset)]"



section \<open>Properties of the gesture helpers\<close>

lemma dWrist_21: "length lm = 21 \<Longrightarrow> i \<le> 20 \<Longrightarrow> dWrist lm i = Some (distToWrist lm i)"
  by (simp add: dWrist_def lmAt_def distToWrist_def)

lemma zip_tips_pips: "zip tips pips = fingers"
  by (simp add: tips_def pips_def fingers_def)

lemma countExtendedFingers_21:
  assumes "length lm = 21"
  shows "countExtendedFingers lm = Some (int (length (filter (extended lm) fingers)))"
  using assms
  by (simp add: countExtendedFingers_def zip_tips_pips fingers_def dWrist_21 extended_def)


lemma length_handOf: "length (handOf x t a b c d) = 21"
  by (simp add: handOf_def)

lemma distToWrist_handOf:
  "distToWrist (handOf x t a b c d) 6 = 2"
  "distToWrist (handOf x t a b c d) 10 = 2"
  "distToWrist (handOf x t a b c d) 14 = 2"
  "distToWrist (handOf x t a b c d) 18 = 2"
  "distToWrist (handOf x t a b c d) 8 = (if a then 3 else 1)"
  "distToWrist (handOf x t a b c d) 12 = (if b then 3 else 1)"
  "distToWrist (handOf x t a b c d) 16 = (if c then 3 else 1)"
  "distToWrist (handOf x t a b c d) 20 = (if d then 3 else 1)"
  by (simp_all add: distToWrist_def handOf_def pt_def tipOf_def hypot_def)

lemma count_handOf:
  "countExtendedFingers (handOf x t a b c d)
     = Some (of_bool a + of_bool b + of_bool c + of_bool d)"
  by (simp add: countExtendedFingers_21 length_handOf fingers_def extended_def distToWrist_handOf)


lemma everyFolded_21:
  assumes "length lm = 21"
  shows "everyFolded lm fingers
           = Some (\<forall>f \<in> set fingers. distToWrist lm (fst f) < distToWrist lm (snd f))"
  using assms by (simp add: fingers_def dWrist_21)

lemma isThumbsUp_21:
  assumes "length lm = 21"
  shows "isThumbsUp lm = Some (yc (lm ! 4) < yc (lm ! 2) - 0.04
      \<and> (\<forall>f \<in> set fingers. distToWrist lm (fst f) < distToWrist lm (snd f)))"
  using assms by (simp add: isThumbsUp_def lmAt_def zip_tips_pips everyFolded_21)

lemma isThumbsUp_handOf:
  "isThumbsUp (handOf x t a b c d) = Some (t < - 0.04 \<and> \<not> a \<and> \<not> b \<and> \<not> c \<and> \<not> d)"
  apply (simp add: isThumbsUp_21 length_handOf fingers_def distToWrist_handOf)
  apply (simp add: handOf_def pt_def)
  done


subsection \<open>The two fist detectors\<close>




section \<open>The results phase\<close>

lemma processLandmarks_Results:
  assumes "phaseRef s = Results" "length lm = 21"
  shows "\<exists>thumbUp count. isThumbsUp lm = Some thumbUp \<and> countExtendedFingers lm = Some count
           \<and> processLandmarks now (Some lm) s = Some (resultsGesture now thumbUp count s)"
  using assms
  by (simp add: processLandmarks_def isThumbsUp_21 countExtendedFingers_21)

lemma handle_Frame_Results:
  assumes "phaseRef s = Results" "isThumbsUp lm \<noteq> None" "countExtendedFingers lm \<noteq> None"
  shows "handle now (Frame (Some lm)) s
           = resultsGesture now (the (isThumbsUp lm)) (the (countExtendedFingers lm)) s"
  using assms by (auto simp: processLandmarks_def)

lemma handle_Frame_Results_None:
  assumes "phaseRef s = Results"
  shows "handle now (Frame None) s
           = s\<lparr>thumbsUpBuffer := 0, fingerBuffer := [], thumbsUpProgress := 0,
                liveFingerCount := None\<rparr>"
  using assms by (simp add: processLandmarks_def)

lemma resultsGesture_thumbUp:
  "thumbsUpBuffer (resultsGesture now True count s)
     = (if thumbsUpBuffer s + 1 \<ge> THUMBS_UP_FRAMES then 0 else thumbsUpBuffer s + 1)"
  "calls (resultsGesture now True count s)
     = (if thumbsUpBuffer s + 1 \<ge> THUMBS_UP_FRAMES then calls s @ [CallReset] else calls s)"
  by (simp_all add: resultsGesture_def reset_def setTimeout_def called_def Let_def
        THUMBS_UP_FRAMES_def min_def)

lemma resultsGesture_noThumb:
  "thumbsUpBuffer (resultsGesture now False count s) = max (thumbsUpBuffer s - 1) 0"
  "count_list (calls (resultsGesture now False count s)) CallReset = count_list (calls s) CallReset"
  by (simp_all add: resultsGesture_def called_def Let_def)

lemma resultsGesture_phaseRef: "phaseRef (resultsGesture now thumbUp count s) = phaseRef s"
  by (simp add: resultsGesture_def reset_def setTimeout_def called_def Let_def)

lemma phaseRef_goNext: "phaseRef (goNext now s) = phaseRef s"
  by (simp add: goNext_def setTimeout_def called_def Let_def)

lemma phaseRef_goPrev: "phaseRef (goPrev now s) = phaseRef s"
  by (simp add: goPrev_def setTimeout_def called_def Let_def)

lemma phaseRef_catalogSwipe: "phaseRef (catalogSwipe now x s) = phaseRef s"
  by (simp add: catalogSwipe_def Let_def phaseRef_goNext phaseRef_goPrev)

lemma phaseRef_catalogFist: "phaseRef (catalogFist now s) = phaseRef s"
  by (simp add: catalogFist_def startCapture_def setTimeout_def called_def Let_def)

lemma phaseRef_processLandmarks:
  "processLandmarks now lmo s = Some s' \<Longrightarrow> phaseRef s' = phaseRef s"
  by (auto simp: processLandmarks_def resultsGesture_phaseRef phaseRef_catalogSwipe
        phaseRef_catalogFist Let_def
      split: if_splits option.splits Option.bind_splits)

lemma phaseRef_handle_Frame: "phaseRef (handle now (Frame lmo) s) = phaseRef s"
  by (auto simp: phaseRef_processLandmarks split: option.splits)

lemma phaseRef_frames: "phaseRef (frames fs s) = phaseRef s"
  by (induction fs arbitrary: s) (auto simp: phaseRef_handle_Frame simp del: handle.simps)


lemma thumbs_bounds_handle:
  assumes "phaseRef s = Results" "0 \<le> thumbsUpBuffer s" "thumbsUpBuffer s \<le> THUMBS_UP_FRAMES"
  shows "0 \<le> thumbsUpBuffer (handle now (Frame lmo) s)
       \<and> thumbsUpBuffer (handle now (Frame lmo) s) \<le> THUMBS_UP_FRAMES"
proof (cases lmo)
  case None
  with assms show ?thesis
    by (simp add: handle_Frame_Results_None THUMBS_UP_FRAMES_def del: handle.simps)
next
  case (Some lm)
  show ?thesis
  proof (cases "processLandmarks now (Some lm) s")
    case None
    with Some assms show ?thesis by simp
  next
    case (Some s')
    with assms(1) obtain thumbUp count where "s' = resultsGesture now thumbUp count s"
      by (auto simp: processLandmarks_def split: Option.bind_splits)
    with Some \<open>lmo = Some lm\<close> assms show ?thesis
      by (cases thumbUp)
         (auto simp: resultsGesture_thumbUp resultsGesture_noThumb THUMBS_UP_FRAMES_def)
  qed
qed

lemma thumbs_bounds_frames:
  assumes "phaseRef s = Results" "0 \<le> thumbsUpBuffer s" "thumbsUpBuffer s \<le> THUMBS_UP_FRAMES"
  shows "0 \<le> thumbsUpBuffer (frames fs s) \<and> thumbsUpBuffer (frames fs s) \<le> THUMBS_UP_FRAMES"
  using assms
proof (induction fs arbitrary: s)
  case Nil
  then show ?case by simp
next
  case (Cons f fs)
  obtain now lmo where f: "f = (now, lmo)" by (cases f)
  have "phaseRef (handle now (Frame lmo) s) = Results"
    using Cons.prems(1) by (simp add: phaseRef_handle_Frame del: handle.simps)
  moreover note thumbs_bounds_handle [OF Cons.prems, of now lmo]
  ultimately show ?case
    using Cons.IH [of "handle now (Frame lmo) s"] by (simp add: f del: handle.simps)
qed

subsection \<open>The thumbs-up accumulator\<close>

text \<open>
  Claim C4, amended. For every sequence of results-phase frames that starts with the
  thumbs-up accumulator within [0, 10], the accumulator stays within [0, 10]. On a
  thumbs-up frame it goes up by one; when that reaches 10 the frame calls \<open>reset\<close>
  exactly once and leaves the accumulator at 0. On a frame with a hand that is not a
  thumbs-up it goes down by one, floored at 0, and \<open>reset\<close> is not called. On a frame
  with no hand it is set to 0, and nothing is called.
\<close>

theorem thumbs_up_accumulator:
  assumes "phaseRef s = Results"
      and "0 \<le> thumbsUpBuffer s" and "thumbsUpBuffer s \<le> THUMBS_UP_FRAMES"
      and "t = frames fs s"
  shows "0 \<le> thumbsUpBuffer t \<and> thumbsUpBuffer t \<le> THUMBS_UP_FRAMES
     \<and> (\<forall>now lm count. isThumbsUp lm = Some True \<and> countExtendedFingers lm = Some count \<longrightarrow>
          (if thumbsUpBuffer t + 1 \<ge> THUMBS_UP_FRAMES
           then thumbsUpBuffer (handle now (Frame (Some lm)) t) = 0
              \<and> calls (handle now (Frame (Some lm)) t) = calls t @ [CallReset]
           else thumbsUpBuffer (handle now (Frame (Some lm)) t) = thumbsUpBuffer t + 1
              \<and> calls (handle now (Frame (Some lm)) t) = calls t))
     \<and> (\<forall>now lm count. isThumbsUp lm = Some False \<and> countExtendedFingers lm = Some count \<longrightarrow>
          thumbsUpBuffer (handle now (Frame (Some lm)) t) = max (thumbsUpBuffer t - 1) 0
          \<and> count_list (calls (handle now (Frame (Some lm)) t)) CallReset
              = count_list (calls t) CallReset)
     \<and> (\<forall>now. thumbsUpBuffer (handle now (Frame None) t) = 0
              \<and> calls (handle now (Frame None) t) = calls t)"
proof -
  have ph: "phaseRef t = Results"
    using assms(1,4) by (simp add: phaseRef_frames)
  have b: "0 \<le> thumbsUpBuffer t \<and> thumbsUpBuffer t \<le> THUMBS_UP_FRAMES"
    using thumbs_bounds_frames [OF assms(1-3)] assms(4) by simp
  have up: "\<forall>now lm count. isThumbsUp lm = Some True \<and> countExtendedFingers lm = Some count \<longrightarrow>
          (if thumbsUpBuffer t + 1 \<ge> THUMBS_UP_FRAMES
           then thumbsUpBuffer (handle now (Frame (Some lm)) t) = 0
              \<and> calls (handle now (Frame (Some lm)) t) = calls t @ [CallReset]
           else thumbsUpBuffer (handle now (Frame (Some lm)) t) = thumbsUpBuffer t + 1
              \<and> calls (handle now (Frame (Some lm)) t) = calls t)"
    using ph by (auto simp: handle_Frame_Results resultsGesture_thumbUp simp del: handle.simps)
  have down: "\<forall>now lm count. isThumbsUp lm = Some False \<and> countExtendedFingers lm = Some count \<longrightarrow>
          thumbsUpBuffer (handle now (Frame (Some lm)) t) = max (thumbsUpBuffer t - 1) 0
          \<and> count_list (calls (handle now (Frame (Some lm)) t)) CallReset
              = count_list (calls t) CallReset"
    using ph by (auto simp: handle_Frame_Results resultsGesture_noThumb simp del: handle.simps)
  have nohand: "\<forall>now. thumbsUpBuffer (handle now (Frame None) t) = 0
              \<and> calls (handle now (Frame None) t) = calls t"
    using ph by (simp add: handle_Frame_Results_None del: handle.simps)
  from b up down nohand show ?thesis by blast
qed

text \<open>
  Claim C4, as stated, at a results-phase frame with no hand and the accumulator at 5: the
  frame is not a thumbs-up frame, and the accumulator does not go down by one to 4; it is
  set to 0.
\<close>

theorem thumbs_up_no_hand:
  "thumbsUpBuffer (resultsState\<lparr>thumbsUpBuffer := 5\<rparr>) = 5
   \<and> thumbsUpBuffer (handle 0 (Frame None) (resultsState\<lparr>thumbsUpBuffer := 5\<rparr>)) = 0"
  by (simp add: resultsState_def initial_def processLandmarks_def)


lemma thumbsUpHand_facts:
  "isThumbsUp thumbsUpHand = Some True" "countExtendedFingers thumbsUpHand = Some 0"
  by (simp_all add: thumbsUpHand_def isThumbsUp_handOf count_handOf)

lemma twoFingers_facts:
  "isThumbsUp twoFingers = Some False" "countExtendedFingers twoFingers = Some 2"
  by (simp_all add: twoFingers_def isThumbsUp_handOf count_handOf)

lemma hold_frames:
  assumes "phaseRef s = Results" "thumbsUpBuffer s + int n < THUMBS_UP_FRAMES"
  shows "thumbsUpBuffer (frames (replicate n (now, Some thumbsUpHand)) s) = thumbsUpBuffer s + int n
       \<and> calls (frames (replicate n (now, Some thumbsUpHand)) s) = calls s"
  using assms
proof (induction n arbitrary: s)
  case 0
  then show ?case by simp
next
  case (Suc n)
  let ?s1 = "handle now (Frame (Some thumbsUpHand)) s"
  have s1: "?s1 = resultsGesture now True 0 s"
    using Suc.prems(1) by (simp add: handle_Frame_Results thumbsUpHand_facts del: handle.simps)
  have "phaseRef ?s1 = Results"
    using Suc.prems(1) by (simp add: phaseRef_handle_Frame del: handle.simps)
  moreover have "thumbsUpBuffer ?s1 = thumbsUpBuffer s + 1" "calls ?s1 = calls s"
    using Suc.prems(2) by (simp_all add: s1 resultsGesture_thumbUp del: handle.simps)
  ultimately show ?case
    using Suc.IH [of ?s1] Suc.prems(2) by (simp del: handle.simps)
qed

theorem thumbs_up_accumulator_witness:
  "phaseRef resultsState = Results
   \<and> 0 \<le> thumbsUpBuffer resultsState \<and> thumbsUpBuffer resultsState \<le> THUMBS_UP_FRAMES
   \<and> thumbsUpBuffer (frames (replicate 9 (0, Some thumbsUpHand)) resultsState) = 9
   \<and> calls (frames (replicate 9 (0, Some thumbsUpHand)) resultsState) = []
   \<and> isThumbsUp thumbsUpHand = Some True \<and> countExtendedFingers thumbsUpHand = Some 0
   \<and> thumbsUpBuffer (handle 0 (Frame (Some thumbsUpHand))
        (frames (replicate 9 (0, Some thumbsUpHand)) resultsState)) = 0
   \<and> calls (handle 0 (Frame (Some thumbsUpHand))
        (frames (replicate 9 (0, Some thumbsUpHand)) resultsState)) = [CallReset]
   \<and> isThumbsUp twoFingers = Some False \<and> countExtendedFingers twoFingers = Some 2
   \<and> thumbsUpBuffer (handle 0 (Frame (Some twoFingers))
        (frames (replicate 9 (0, Some thumbsUpHand)) resultsState)) = 8
   \<and> thumbsUpBuffer (handle 0 (Frame None)
        (frames (replicate 9 (0, Some thumbsUpHand)) resultsState)) = 0"
proof -
  let ?t = "frames (replicate 9 (0, Some thumbsUpHand)) resultsState"
  have s: "phaseRef resultsState = Results" "thumbsUpBuffer resultsState = 0"
    "calls resultsState = []"
    by (simp_all add: resultsState_def initial_def)
  have t: "thumbsUpBuffer ?t = 9" "calls ?t = []"
    using hold_frames [of resultsState 9 0] s by (simp_all add: THUMBS_UP_FRAMES_def)
  have bounds: "0 \<le> thumbsUpBuffer resultsState" "thumbsUpBuffer resultsState \<le> THUMBS_UP_FRAMES"
    using s by (simp_all add: THUMBS_UP_FRAMES_def)
  note main = thumbs_up_accumulator [OF s(1) bounds refl, of "replicate 9 (0, Some thumbsUpHand)"]
  from main have up:
    "(if thumbsUpBuffer ?t + 1 \<ge> THUMBS_UP_FRAMES
      then thumbsUpBuffer (handle 0 (Frame (Some thumbsUpHand)) ?t) = 0
         \<and> calls (handle 0 (Frame (Some thumbsUpHand)) ?t) = calls ?t @ [CallReset]
      else thumbsUpBuffer (handle 0 (Frame (Some thumbsUpHand)) ?t) = thumbsUpBuffer ?t + 1
         \<and> calls (handle 0 (Frame (Some thumbsUpHand)) ?t) = calls ?t)"
    using thumbsUpHand_facts by blast
  from main have down:
    "thumbsUpBuffer (handle 0 (Frame (Some twoFingers)) ?t) = max (thumbsUpBuffer ?t - 1) 0"
    using twoFingers_facts by blast
  from up have "thumbsUpBuffer (handle 0 (Frame (Some thumbsUpHand)) ?t) = 0"
    "calls (handle 0 (Frame (Some thumbsUpHand)) ?t) = [CallReset]"
    by (simp_all add: t THUMBS_UP_FRAMES_def del: handle.simps)
  moreover from down have "thumbsUpBuffer (handle 0 (Frame (Some twoFingers)) ?t) = 8"
    by (simp add: t del: handle.simps)
  moreover from main have "thumbsUpBuffer (handle 0 (Frame None) ?t) = 0"
    by blast
  ultimately show ?thesis
    using s bounds t thumbsUpHand_facts twoFingers_facts by (simp del: handle.simps)
qed

subsection \<open>Finger-count selection\<close>

lemma pushes_snoc: "pushes (rs @ [r]) buf = push r (pushes rs buf)"
  by (induction rs arbitrary: buf) auto

lemma length_push: "length (push r buf) \<le> 8"
  by (auto simp: push_def split: option.splits)

lemma stable_pushes:
  assumes "length rs \<le> 8"
  shows "(\<forall>r \<in> set rs. r = Some k)
         \<longleftrightarrow> (length rs \<le> length (pushes rs buf)
              \<and> list_all (\<lambda>c. c = k) (drop (length (pushes rs buf) - length rs) (pushes rs buf)))"
  using assms
proof (induction rs rule: rev_induct)
  case Nil
  then show ?case by simp
next
  case (snoc r rs)
  let ?b = "pushes rs buf"
  have n: "length rs \<le> 7" using snoc.prems by simp
  have IH: "(\<forall>r \<in> set rs. r = Some k)
         \<longleftrightarrow> (length rs \<le> length ?b \<and> list_all (\<lambda>c. c = k) (drop (length ?b - length rs) ?b))"
    using snoc.IH n by simp
  show ?case
  proof (cases r)
    case None
    then show ?thesis by (simp add: pushes_snoc push_def)
  next
    case (Some c)
    have d: "drop (length (drop (length ?b - 7) ?b) - length rs) (drop (length ?b - 7) ?b)
             = drop (length ?b - length rs) ?b"
      using n by (cases "length rs \<le> length ?b") auto
    have l: "length rs \<le> length (drop (length ?b - 7) ?b) \<longleftrightarrow> length rs \<le> length ?b"
      using n by auto
    show ?thesis
      using IH d l by (auto simp: Some pushes_snoc push_def)
  qed
qed


lemma thumbsUp_count_0:
  assumes "length lm = 21" "isThumbsUp lm = Some True"
  shows "countExtendedFingers lm = Some 0"
  using assms
  by (auto simp: isThumbsUp_21 countExtendedFingers_21 fingers_def extended_def)

lemma reading_Some:
  "reading lmo = Some k
     \<longleftrightarrow> (1 \<le> k \<and> k \<le> 4 \<and> (\<exists>lm. lmo = Some lm \<and> countExtendedFingers lm = Some k))"
  by (auto simp: reading_def split: option.splits)

lemma fingerBuffer_resultsGesture:
  "fingerBuffer (resultsGesture now thumbUp count s)
     = (if \<not> thumbUp \<and> 1 \<le> count \<and> count \<le> 4
        then drop (length (fingerBuffer s) - 7) (fingerBuffer s) @ [count] else [])"
  by (simp add: resultsGesture_def reset_def setTimeout_def called_def Let_def
        FINGER_STABLE_FRAMES_def)

lemma calls_resultsGesture_noThumb:
  "calls (resultsGesture now False count s)
     = (if 1 \<le> count \<and> count \<le> 4
           \<and> 8 \<le> length (drop (length (fingerBuffer s) - 7) (fingerBuffer s) @ [count])
           \<and> list_all (\<lambda>c. c = count) (drop (length (fingerBuffer s) - 7) (fingerBuffer s) @ [count])
           \<and> count - 1 \<noteq> selectedIndexRef s
        then calls s @ [CallSetSelectedLookIndex (count - 1)] else calls s)"
  "selectedLookIndex (resultsGesture now False count s)
     = (if 1 \<le> count \<and> count \<le> 4
           \<and> 8 \<le> length (drop (length (fingerBuffer s) - 7) (fingerBuffer s) @ [count])
           \<and> list_all (\<lambda>c. c = count) (drop (length (fingerBuffer s) - 7) (fingerBuffer s) @ [count])
           \<and> count - 1 \<noteq> selectedIndexRef s
        then count - 1 else selectedLookIndex s)"
  by (simp_all add: resultsGesture_def called_def Let_def FINGER_STABLE_FRAMES_def)

lemma wellFormed_Results_cases:
  assumes "phaseRef s = Results" "wellFormed lmo"
  obtains (nohand) "lmo = None" "reading lmo = None"
      "handle now (Frame lmo) s
         = s\<lparr>thumbsUpBuffer := 0, fingerBuffer := [], thumbsUpProgress := 0,
              liveFingerCount := None\<rparr>"
    | (thumb) lm where "lmo = Some lm" "reading lmo = None"
      "handle now (Frame lmo) s = resultsGesture now True 0 s"
    | (hand) lm count where "lmo = Some lm" "countExtendedFingers lm = Some count"
      "handle now (Frame lmo) s = resultsGesture now False count s"
proof (cases lmo)
  case None
  with assms(1) show ?thesis
    by (intro nohand) (simp_all add: reading_def handle_Frame_Results_None del: handle.simps)
next
  case (Some lm)
  with assms(2) have len: "length lm = 21" by (simp add: wellFormed_def)
  then obtain thumbUp count where tc: "isThumbsUp lm = Some thumbUp"
      "countExtendedFingers lm = Some count"
    by (simp add: isThumbsUp_21 countExtendedFingers_21)
  then have h: "handle now (Frame lmo) s = resultsGesture now thumbUp count s"
    using assms(1) Some by (simp add: handle_Frame_Results del: handle.simps)
  show ?thesis
  proof (cases thumbUp)
    case True
    with tc len have "count = 0" using thumbsUp_count_0 by fastforce
    with True h Some tc show ?thesis
      by (intro thumb [of lm]) (simp_all add: reading_def)
  next
    case False
    with h Some tc show ?thesis by (intro hand [of lm count]) simp_all
  qed
qed

lemma fingerBuffer_handle:
  assumes "phaseRef s = Results" "wellFormed lmo"
  shows "fingerBuffer (handle now (Frame lmo) s) = push (reading lmo) (fingerBuffer s)"
  using assms
proof (cases rule: wellFormed_Results_cases [where now = now])
  case nohand
  then show ?thesis by (simp add: push_def del: handle.simps)
next
  case (thumb lm)
  then show ?thesis by (simp add: push_def fingerBuffer_resultsGesture del: handle.simps)
next
  case (hand lm count)
  then show ?thesis
    by (simp add: push_def reading_def fingerBuffer_resultsGesture del: handle.simps)
qed

lemma fingerBuffer_frames:
  assumes "phaseRef s = Results" "\<forall>f \<in> set fs. wellFormed (snd f)"
  shows "fingerBuffer (frames fs s) = pushes (map (\<lambda>f. reading (snd f)) fs) (fingerBuffer s)"
  using assms
proof (induction fs arbitrary: s)
  case Nil
  then show ?case by simp
next
  case (Cons f fs)
  obtain now lmo where f: "f = (now, lmo)" by (cases f)
  have "phaseRef (handle now (Frame lmo) s) = Results"
    using Cons.prems(1) by (simp add: phaseRef_handle_Frame del: handle.simps)
  then show ?case
    using Cons.IH [of "handle now (Frame lmo) s"] Cons.prems
    by (simp add: f fingerBuffer_handle del: handle.simps)
qed

lemma selection_fires:
  assumes "phaseRef s = Results" "wellFormed lmo"
  shows "calls (handle now (Frame lmo) s) = calls s @ [CallSetSelectedLookIndex (k - 1)]
         \<longleftrightarrow> (reading lmo = Some k
              \<and> 8 \<le> length (push (reading lmo) (fingerBuffer s))
              \<and> list_all (\<lambda>c. c = k) (push (reading lmo) (fingerBuffer s))
              \<and> k - 1 \<noteq> selectedIndexRef s)"
  using assms
proof (cases rule: wellFormed_Results_cases [where now = now])
  case nohand
  then show ?thesis by (simp del: handle.simps)
next
  case (thumb lm)
  then show ?thesis by (simp add: resultsGesture_thumbUp del: handle.simps)
next
  case (hand lm count)
  then show ?thesis
    by (auto simp: push_def reading_def calls_resultsGesture_noThumb simp del: handle.simps)
qed


lemma selectedIndexRef_processLandmarks:
  "processLandmarks now lmo s = Some s' \<Longrightarrow> selectedIndexRef s' = selectedIndexRef s"
  by (auto simp: processLandmarks_def resultsGesture_def catalogSwipe_def catalogFist_def
        goNext_def goPrev_def startCapture_def reset_def setTimeout_def called_def Let_def
      split: if_splits option.splits Option.bind_splits)

lemma selectedIndexRef_handle_Frame:
  "selectedIndexRef (handle now (Frame lmo) s) = selectedIndexRef s"
  by (auto simp: selectedIndexRef_processLandmarks split: option.splits)

lemma selectedIndexRef_frames: "selectedIndexRef (frames fs s) = selectedIndexRef s"
  by (induction fs arbitrary: s) (auto simp: selectedIndexRef_handle_Frame simp del: handle.simps)

text \<open>
  Claim C5. In the results phase, take any eight consecutive well-formed frames, the last
  one at state \<open>t\<close>. The last frame calls \<open>setSelectedLookIndex(k - 1)\<close> iff \<open>k\<close> is
  in [1, 4], each of the eight frames has a hand whose extended-finger count is \<open>k\<close>, and
  \<open>k - 1\<close> differs from the selected index held in \<open>selectedIndexRef\<close>; when it does,
  the selected-look index becomes \<open>k - 1\<close>. So seven readings of one value followed by a
  different value do not fire, and the new value needs seven more readings.
\<close>

theorem finger_count_selection:
  assumes "phaseRef s = Results" and "length fs = 7"
      and "\<forall>f \<in> set fs. wellFormed (snd f)" and "wellFormed lmo"
      and "t = frames fs s"
  shows "((calls (handle now (Frame lmo) t) = calls t @ [CallSetSelectedLookIndex (k - 1)])
          = (1 \<le> k \<and> k \<le> 4
             \<and> (\<forall>f \<in> set (fs @ [(now, lmo)]).
                   \<exists>lm. snd f = Some lm \<and> countExtendedFingers lm = Some k)
             \<and> k - 1 \<noteq> selectedIndexRef t))
       \<and> (calls (handle now (Frame lmo) t) = calls t @ [CallSetSelectedLookIndex (k - 1)]
            \<longrightarrow> selectedLookIndex (handle now (Frame lmo) t) = k - 1)"
proof -
  let ?rs = "map (\<lambda>f. reading (snd f)) (fs @ [(now, lmo)])"
  let ?buf = "push (reading lmo) (fingerBuffer t)"
  have ph: "phaseRef t = Results"
    using assms(1,5) by (simp add: phaseRef_frames)
  have buf: "?buf = pushes ?rs (fingerBuffer s)"
    using assms(1,3,5) by (simp add: fingerBuffer_frames pushes_snoc)
  have len: "length ?rs = 8" using assms(2) by simp
  have le8: "length ?buf \<le> 8" by (rule length_push)
  have "(\<forall>r \<in> set ?rs. r = Some k)
          \<longleftrightarrow> (8 \<le> length ?buf \<and> list_all (\<lambda>c. c = k) (drop (length ?buf - 8) ?buf))"
    using stable_pushes [of ?rs k "fingerBuffer s"] len buf by simp
  moreover have "drop (length ?buf - 8) ?buf = ?buf" using le8 by simp
  ultimately have stable: "(\<forall>r \<in> set ?rs. r = Some k)
          \<longleftrightarrow> (8 \<le> length ?buf \<and> list_all (\<lambda>c. c = k) ?buf)"
    by simp
  have rs: "(\<forall>r \<in> set ?rs. r = Some k)
          \<longleftrightarrow> (1 \<le> k \<and> k \<le> 4
               \<and> (\<forall>f \<in> set (fs @ [(now, lmo)]).
                     \<exists>lm. snd f = Some lm \<and> countExtendedFingers lm = Some k))"
    by (auto simp: reading_Some)
  have last: "reading lmo = Some k" if "\<forall>r \<in> set ?rs. r = Some k"
    using that by simp
  have fires: "calls (handle now (Frame lmo) t) = calls t @ [CallSetSelectedLookIndex (k - 1)]
         \<longleftrightarrow> (reading lmo = Some k \<and> 8 \<le> length ?buf \<and> list_all (\<lambda>c. c = k) ?buf
              \<and> k - 1 \<noteq> selectedIndexRef t)"
    using selection_fires [OF ph assms(4)] .
  have iff: "(calls (handle now (Frame lmo) t) = calls t @ [CallSetSelectedLookIndex (k - 1)])
          = (1 \<le> k \<and> k \<le> 4
             \<and> (\<forall>f \<in> set (fs @ [(now, lmo)]).
                   \<exists>lm. snd f = Some lm \<and> countExtendedFingers lm = Some k)
             \<and> k - 1 \<noteq> selectedIndexRef t)"
    using fires stable rs last by blast
  have sel: "selectedLookIndex (handle now (Frame lmo) t) = k - 1"
    if "calls (handle now (Frame lmo) t) = calls t @ [CallSetSelectedLookIndex (k - 1)]"
    using ph assms(4)
  proof (cases rule: wellFormed_Results_cases [where now = now])
    case nohand
    with that show ?thesis by (simp del: handle.simps)
  next
    case (thumb lm)
    with that show ?thesis by (simp add: resultsGesture_thumbUp del: handle.simps split: if_splits)
  next
    case (hand lm count)
    with that show ?thesis
      by (simp add: calls_resultsGesture_noThumb del: handle.simps split: if_splits)
  qed
  from iff sel show ?thesis by blast
qed


lemma threeFingers_facts:
  "isThumbsUp threeFingers = Some False" "countExtendedFingers threeFingers = Some 3"
  by (simp_all add: threeFingers_def isThumbsUp_handOf count_handOf)

lemma wellFormed_hands:
  "wellFormed (Some twoFingers)" "wellFormed (Some threeFingers)"
  by (simp_all add: wellFormed_def twoFingers_def threeFingers_def length_handOf)

theorem finger_count_selection_witness:
  "phaseRef resultsState = Results
   \<and> length (replicate 7 (0::int, Some twoFingers)) = 7
   \<and> wellFormed (Some twoFingers) \<and> wellFormed (Some threeFingers)
   \<and> countExtendedFingers twoFingers = Some 2 \<and> countExtendedFingers threeFingers = Some 3
   \<and> selectedIndexRef (frames (replicate 7 (0, Some twoFingers)) resultsState) = 0
   \<and> calls (handle 0 (Frame (Some twoFingers))
        (frames (replicate 7 (0, Some twoFingers)) resultsState))
      = calls (frames (replicate 7 (0, Some twoFingers)) resultsState)
          @ [CallSetSelectedLookIndex 1]
   \<and> selectedLookIndex (handle 0 (Frame (Some twoFingers))
        (frames (replicate 7 (0, Some twoFingers)) resultsState)) = 1
   \<and> calls (handle 0 (Frame (Some threeFingers))
        (frames (replicate 7 (0, Some twoFingers)) resultsState))
      \<noteq> calls (frames (replicate 7 (0, Some twoFingers)) resultsState)
          @ [CallSetSelectedLookIndex 2]
   \<and> calls (handle 0 (Frame (Some threeFingers))
        (frames ((0, Some twoFingers) # replicate 6 (0, Some threeFingers)) resultsState))
      \<noteq> calls (frames ((0, Some twoFingers) # replicate 6 (0, Some threeFingers)) resultsState)
          @ [CallSetSelectedLookIndex 2]
   \<and> calls (handle 0 (Frame (Some threeFingers))
        (frames (replicate 7 (0, Some threeFingers))
           (frames (replicate 7 (0, Some twoFingers)) resultsState)))
      = calls (frames (replicate 7 (0, Some threeFingers))
           (frames (replicate 7 (0, Some twoFingers)) resultsState))
          @ [CallSetSelectedLookIndex 2]"
proof -
  let ?two = "(0::int, Some twoFingers)"
  let ?three = "(0::int, Some threeFingers)"
  let ?t = "frames (replicate 7 ?two) resultsState"
  have s: "phaseRef resultsState = Results" "selectedIndexRef resultsState = 0"
    by (simp_all add: resultsState_def initial_def)
  have t: "phaseRef ?t = Results" "selectedIndexRef ?t = 0"
    using s by (simp_all add: phaseRef_frames selectedIndexRef_frames)
  have wf2: "\<forall>f \<in> set (replicate 7 ?two). wellFormed (snd f)"
    using wellFormed_hands by simp
  have wf3: "\<forall>f \<in> set (replicate 7 ?three). wellFormed (snd f)"
    using wellFormed_hands by simp
  have wf23: "\<forall>f \<in> set (?two # replicate 6 ?three). wellFormed (snd f)"
    using wellFormed_hands by simp
  note a = finger_count_selection [OF s(1) _ wf2 wellFormed_hands(1) refl, of 0 2]
  note b = finger_count_selection [OF s(1) _ wf2 wellFormed_hands(2) refl, of 0 3]
  note c = finger_count_selection [OF s(1) _ wf23 wellFormed_hands(2) refl, of 0 3]
  note d = finger_count_selection [OF t(1) _ wf3 wellFormed_hands(2) refl, of 0 3]
  have fa: "calls (handle 0 (Frame (Some twoFingers)) ?t) = calls ?t @ [CallSetSelectedLookIndex 1]"
    using a by (simp add: twoFingers_facts t del: handle.simps)
  with a have sa: "selectedLookIndex (handle 0 (Frame (Some twoFingers)) ?t) = 1"
    by (simp del: handle.simps)
  have fb: "calls (handle 0 (Frame (Some threeFingers)) ?t) \<noteq> calls ?t @ [CallSetSelectedLookIndex 2]"
    using b by (simp add: twoFingers_facts threeFingers_facts del: handle.simps)
  have fc: "calls (handle 0 (Frame (Some threeFingers)) (frames (?two # replicate 6 ?three) resultsState))
      \<noteq> calls (frames (?two # replicate 6 ?three) resultsState) @ [CallSetSelectedLookIndex 2]"
    using c by (simp add: twoFingers_facts threeFingers_facts del: handle.simps frames.simps)
  have fd: "calls (handle 0 (Frame (Some threeFingers)) (frames (replicate 7 ?three) ?t))
      = calls (frames (replicate 7 ?three) ?t) @ [CallSetSelectedLookIndex 2]"
    using d by (simp add: threeFingers_facts s selectedIndexRef_frames del: handle.simps)
  from fa sa fb fc fd s t show ?thesis
    using wellFormed_hands twoFingers_facts threeFingers_facts
    by (simp del: handle.simps frames.simps)
qed

section \<open>The swipe window\<close>


















lemma openHand_facts:
  "length (openHand x) = 21" "countExtendedFingers (openHand x) = Some 4"
  "xc (openHand x ! 9) = x"
  "\<not> sqrt ((xc (openHand x ! 4) - xc (openHand x ! 8))\<^sup>2
            + (yc (openHand x ! 4) - yc (openHand x ! 8))\<^sup>2) < 0.08"
proof -
  show "length (openHand x) = 21" by (simp add: openHand_def length_handOf)
  show "countExtendedFingers (openHand x) = Some 4" by (simp add: openHand_def count_handOf)
  show "xc (openHand x ! 9) = x" by (simp add: openHand_def handOf_def pt_def)
  have "(0.08::real)\<^sup>2 \<le> 10" by (simp add: power2_eq_square)
  then have "0.08 \<le> sqrt 10" by (rule real_le_rsqrt)
  then show "\<not> sqrt ((xc (openHand x ! 4) - xc (openHand x ! 8))\<^sup>2
            + (yc (openHand x ! 4) - yc (openHand x ! 8))\<^sup>2) < 0.08"
    by (simp add: openHand_def handOf_def pt_def tipOf_def)
qed





section \<open>What each handler writes\<close>

lemma reset_fields:
  "phase (reset now s) = Catalog"
  "capturedPhoto (reset now s) = None"
  "generatedLooks (reset now s) = []"
  "selectedLookIndex (reset now s) = 0"
  "countdown (reset now s) = None"
  "thumbsUpProgress (reset now s) = 0"
  "fistStartTime (reset now s) = None"
  "thumbsUpBuffer (reset now s) = 0"
  "fingerBuffer (reset now s) = []"
  "postResetCooldown (reset now s)"
  "requireOpenHandAfterReset (reset now s)"
  "timers (reset now s) = timers s @ [(now + 500, ClearPostResetCooldown)]"
  "calls (reset now s) = calls s @ [CallReset]"
  "phaseRef (reset now s) = phaseRef s"
  "batches (reset now s) = batches s"
  "catalogCooldown (reset now s) = catalogCooldown s"
  "currentIndex (reset now s) = currentIndex s"
  "clock (reset now s) = clock s"
  "selectedIndexRef (reset now s) = selectedIndexRef s"
  "swipeState (reset now s) = swipeState s"
  "currentItemRef (reset now s) = currentItemRef s"
  "countdownDep (reset now s) = countdownDep s"
  by (simp_all add: reset_def setTimeout_def called_def Let_def)

lemma goNext_fields:
  "phase (goNext now s) = phase s"
  "phaseRef (goNext now s) = phaseRef s"
  "countdown (goNext now s) = countdown s"
  "batches (goNext now s) = batches s"
  "generatedLooks (goNext now s) = generatedLooks s"
  "postResetCooldown (goNext now s) = postResetCooldown s"
  "requireOpenHandAfterReset (goNext now s) = requireOpenHandAfterReset s"
  "clock (goNext now s) = clock s"
  "selectedLookIndex (goNext now s) = selectedLookIndex s"
  "selectedIndexRef (goNext now s) = selectedIndexRef s"
  "thumbsUpBuffer (goNext now s) = thumbsUpBuffer s"
  "fingerBuffer (goNext now s) = fingerBuffer s"
  "currentItemRef (goNext now s) = currentItemRef s"
  "countdownDep (goNext now s) = countdownDep s"
  "capturedPhoto (goNext now s) = capturedPhoto s"
  "calls (goNext now s) = calls s @ [CallGoNext]"
  "catalogCooldown (goNext now s) = (catalogCooldown s \<or> phaseRef s = Catalog)"
  "timers (goNext now s) = (if catalogCooldown s \<or> phaseRef s \<noteq> Catalog then timers s
       else timers s @ [(now + 800, ClearCatalogCooldown)])"
  "currentIndex (goNext now s) = (if catalogCooldown s \<or> phaseRef s \<noteq> Catalog then currentIndex s
       else (currentIndex s + 1) mod length CATALOG)"
  by (auto simp: goNext_def setTimeout_def called_def Let_def)

lemma goPrev_fields:
  "phase (goPrev now s) = phase s"
  "phaseRef (goPrev now s) = phaseRef s"
  "countdown (goPrev now s) = countdown s"
  "batches (goPrev now s) = batches s"
  "generatedLooks (goPrev now s) = generatedLooks s"
  "postResetCooldown (goPrev now s) = postResetCooldown s"
  "requireOpenHandAfterReset (goPrev now s) = requireOpenHandAfterReset s"
  "clock (goPrev now s) = clock s"
  "selectedLookIndex (goPrev now s) = selectedLookIndex s"
  "selectedIndexRef (goPrev now s) = selectedIndexRef s"
  "thumbsUpBuffer (goPrev now s) = thumbsUpBuffer s"
  "fingerBuffer (goPrev now s) = fingerBuffer s"
  "currentItemRef (goPrev now s) = currentItemRef s"
  "countdownDep (goPrev now s) = countdownDep s"
  "capturedPhoto (goPrev now s) = capturedPhoto s"
  "calls (goPrev now s) = calls s @ [CallGoPrev]"
  "catalogCooldown (goPrev now s) = (catalogCooldown s \<or> phaseRef s = Catalog)"
  "timers (goPrev now s) = (if catalogCooldown s \<or> phaseRef s \<noteq> Catalog then timers s
       else timers s @ [(now + 800, ClearCatalogCooldown)])"
  "currentIndex (goPrev now s) = (if catalogCooldown s \<or> phaseRef s \<noteq> Catalog then currentIndex s
       else nat ((int (currentIndex s) - 1 + int (length CATALOG)) mod int (length CATALOG)))"
  by (auto simp: goPrev_def setTimeout_def called_def Let_def)

lemma startCapture_fields:
  "phase (startCapture s) = (if phaseRef s = Catalog then Capturing else phase s)"
  "countdown (startCapture s) = (if phaseRef s = Catalog then Some COUNTDOWN_SECONDS else countdown s)"
  "calls (startCapture s) = calls s @ [CallStartCapture]"
  "phaseRef (startCapture s) = phaseRef s"
  "batches (startCapture s) = batches s"
  "generatedLooks (startCapture s) = generatedLooks s"
  "catalogCooldown (startCapture s) = catalogCooldown s"
  "timers (startCapture s) = timers s"
  "currentIndex (startCapture s) = currentIndex s"
  "postResetCooldown (startCapture s) = postResetCooldown s"
  "requireOpenHandAfterReset (startCapture s) = requireOpenHandAfterReset s"
  "clock (startCapture s) = clock s"
  "swipeState (startCapture s) = swipeState s"
  "selectedLookIndex (startCapture s) = selectedLookIndex s"
  "selectedIndexRef (startCapture s) = selectedIndexRef s"
  "currentItemRef (startCapture s) = currentItemRef s"
  "countdownDep (startCapture s) = countdownDep s"
  "capturedPhoto (startCapture s) = capturedPhoto s"
  by (simp_all add: startCapture_def setTimeout_def called_def Let_def)

lemma catalogFist_fields:
  "phase (catalogFist now s) = (if \<not> catalogCooldown s \<and> phaseRef s = Catalog then Capturing else phase s)"
  "countdown (catalogFist now s) = (if \<not> catalogCooldown s \<and> phaseRef s = Catalog
       then Some COUNTDOWN_SECONDS else countdown s)"
  "calls (catalogFist now s) = (if catalogCooldown s then calls s else calls s @ [CallStartCapture])"
  "catalogCooldown (catalogFist now s)"
  "timers (catalogFist now s) = (if catalogCooldown s then timers s
       else timers s @ [(now + 1200, ClearCatalogCooldown)])"
  "phaseRef (catalogFist now s) = phaseRef s"
  "batches (catalogFist now s) = batches s"
  "generatedLooks (catalogFist now s) = generatedLooks s"
  "currentIndex (catalogFist now s) = currentIndex s"
  "postResetCooldown (catalogFist now s) = postResetCooldown s"
  "requireOpenHandAfterReset (catalogFist now s) = requireOpenHandAfterReset s"
  "clock (catalogFist now s) = clock s"
  "selectedLookIndex (catalogFist now s) = selectedLookIndex s"
  "selectedIndexRef (catalogFist now s) = selectedIndexRef s"
  "currentItemRef (catalogFist now s) = currentItemRef s"
  "countdownDep (catalogFist now s) = countdownDep s"
  "capturedPhoto (catalogFist now s) = capturedPhoto s"
  by (simp_all add: catalogFist_def startCapture_def setTimeout_def called_def Let_def)
lemma catalogSwipe_fields:
  "phase (catalogSwipe now x s) = phase s"
  "phaseRef (catalogSwipe now x s) = phaseRef s"
  "countdown (catalogSwipe now x s) = countdown s"
  "batches (catalogSwipe now x s) = batches s"
  "generatedLooks (catalogSwipe now x s) = generatedLooks s"
  "postResetCooldown (catalogSwipe now x s) = postResetCooldown s"
  "requireOpenHandAfterReset (catalogSwipe now x s) = requireOpenHandAfterReset s"
  "clock (catalogSwipe now x s) = clock s"
  "selectedLookIndex (catalogSwipe now x s) = selectedLookIndex s"
  "selectedIndexRef (catalogSwipe now x s) = selectedIndexRef s"
  "currentItemRef (catalogSwipe now x s) = currentItemRef s"
  "countdownDep (catalogSwipe now x s) = countdownDep s"
  "capturedPhoto (catalogSwipe now x s) = capturedPhoto s"
  by (simp_all add: catalogSwipe_def Let_def goNext_fields goPrev_fields)

lemma resultsGesture_fields:
  "phase (resultsGesture now thumbUp count s) = (if thumbUp \<and> THUMBS_UP_FRAMES \<le> thumbsUpBuffer s + 1 then Catalog else phase s)"
  "countdown (resultsGesture now thumbUp count s) = (if thumbUp \<and> THUMBS_UP_FRAMES \<le> thumbsUpBuffer s + 1 then None else countdown s)"
  "generatedLooks (resultsGesture now thumbUp count s) = (if thumbUp \<and> THUMBS_UP_FRAMES \<le> thumbsUpBuffer s + 1 then [] else generatedLooks s)"
  "capturedPhoto (resultsGesture now thumbUp count s) = (if thumbUp \<and> THUMBS_UP_FRAMES \<le> thumbsUpBuffer s + 1 then None else capturedPhoto s)"
  "postResetCooldown (resultsGesture now thumbUp count s) = (if thumbUp \<and> THUMBS_UP_FRAMES \<le> thumbsUpBuffer s + 1 then True else postResetCooldown s)"
  "requireOpenHandAfterReset (resultsGesture now thumbUp count s) = (if thumbUp \<and> THUMBS_UP_FRAMES \<le> thumbsUpBuffer s + 1 then True else requireOpenHandAfterReset s)"
  "timers (resultsGesture now thumbUp count s) = (if thumbUp \<and> THUMBS_UP_FRAMES \<le> thumbsUpBuffer s + 1 then timers s @ [(now + 500, ClearPostResetCooldown)] else timers s)"
  "phaseRef (resultsGesture now thumbUp count s) = phaseRef s"
  "batches (resultsGesture now thumbUp count s) = batches s"
  "catalogCooldown (resultsGesture now thumbUp count s) = catalogCooldown s"
  "currentIndex (resultsGesture now thumbUp count s) = currentIndex s"
  "clock (resultsGesture now thumbUp count s) = clock s"
  "selectedIndexRef (resultsGesture now thumbUp count s) = selectedIndexRef s"
  "currentItemRef (resultsGesture now thumbUp count s) = currentItemRef s"
  "countdownDep (resultsGesture now thumbUp count s) = countdownDep s"
  "swipeState (resultsGesture now thumbUp count s) = swipeState s"
  by (simp_all add: resultsGesture_def reset_def setTimeout_def called_def Let_def
        THUMBS_UP_FRAMES_def min_def)

lemma startGeneration_fields:
  "phase (startGeneration url s) = Generating"
  "phaseRef (startGeneration url s) = phaseRef s"
  "countdown (startGeneration url s) = countdown s"
  "catalogCooldown (startGeneration url s) = catalogCooldown s"
  "timers (startGeneration url s) = timers s"
  "currentIndex (startGeneration url s) = currentIndex s"
  "postResetCooldown (startGeneration url s) = postResetCooldown s"
  "requireOpenHandAfterReset (startGeneration url s) = requireOpenHandAfterReset s"
  "clock (startGeneration url s) = clock s"
  "calls (startGeneration url s) = calls s"
  "selectedLookIndex (startGeneration url s) = selectedLookIndex s"
  "selectedIndexRef (startGeneration url s) = selectedIndexRef s"
  "currentItemRef (startGeneration url s) = currentItemRef s"
  "countdownDep (startGeneration url s) = countdownDep s"
  "capturedPhoto (startGeneration url s) = capturedPhoto s"
  "batches (startGeneration url s) = (case currentItemRef s of None \<Rightarrow> batches s
       | Some item \<Rightarrow> batches s @ [newBatch (scenes item)])"
  "generatedLooks (startGeneration url s) = (case currentItemRef s of None \<Rightarrow> generatedLooks s
       | Some item \<Rightarrow> map loadingLook (scenes item))"
  by (simp_all add: startGeneration_def split: option.splits)

lemma syncRefs_fields:
  "phaseRef (syncRefs s) = phase s"
  "selectedIndexRef (syncRefs s) = selectedLookIndex s"
  "currentItemRef (syncRefs s) = arrayAt CATALOG (currentIndex s)"
  "phase (syncRefs s) = phase s"
  "countdown (syncRefs s) = countdown s"
  "catalogCooldown (syncRefs s) = catalogCooldown s"
  "timers (syncRefs s) = timers s"
  "currentIndex (syncRefs s) = currentIndex s"
  "postResetCooldown (syncRefs s) = postResetCooldown s"
  "requireOpenHandAfterReset (syncRefs s) = requireOpenHandAfterReset s"
  "clock (syncRefs s) = clock s"
  "calls (syncRefs s) = calls s"
  "batches (syncRefs s) = batches s"
  "generatedLooks (syncRefs s) = generatedLooks s"
  "selectedLookIndex (syncRefs s) = selectedLookIndex s"
  "countdownDep (syncRefs s) = countdownDep s"
  "capturedPhoto (syncRefs s) = capturedPhoto s"
  by (simp_all add: syncRefs_def)

lemma lookSettled_fields:
  "batches (lookSettled b index outcome s) = (batches s)[b := settleLook index outcome (batches s ! b)]"
  "generatedLooks (lookSettled b index outcome s) = batchResults (settleLook index outcome (batches s ! b))"
  "phase (lookSettled b index outcome s) = phase s"
  "phaseRef (lookSettled b index outcome s) = phaseRef s"
  "countdown (lookSettled b index outcome s) = countdown s"
  "catalogCooldown (lookSettled b index outcome s) = catalogCooldown s"
  "timers (lookSettled b index outcome s) = timers s"
  "currentIndex (lookSettled b index outcome s) = currentIndex s"
  "postResetCooldown (lookSettled b index outcome s) = postResetCooldown s"
  "requireOpenHandAfterReset (lookSettled b index outcome s) = requireOpenHandAfterReset s"
  "clock (lookSettled b index outcome s) = clock s"
  "calls (lookSettled b index outcome s) = calls s"
  "selectedLookIndex (lookSettled b index outcome s) = selectedLookIndex s"
  "selectedIndexRef (lookSettled b index outcome s) = selectedIndexRef s"
  by (simp_all add: lookSettled_def Let_def)

lemma batchDone_fields:
  "batches (batchDone b s) = (batches s)[b := (batches s ! b)\<lparr>finished := True\<rparr>]"
  "phase (batchDone b s) = Results"
  "selectedLookIndex (batchDone b s) = 0"
  "generatedLooks (batchDone b s) = generatedLooks s"
  "phaseRef (batchDone b s) = phaseRef s"
  "countdown (batchDone b s) = countdown s"
  "catalogCooldown (batchDone b s) = catalogCooldown s"
  "timers (batchDone b s) = timers s"
  "currentIndex (batchDone b s) = currentIndex s"
  "postResetCooldown (batchDone b s) = postResetCooldown s"
  "requireOpenHandAfterReset (batchDone b s) = requireOpenHandAfterReset s"
  "clock (batchDone b s) = clock s"
  "calls (batchDone b s) = calls s"
  "selectedIndexRef (batchDone b s) = selectedIndexRef s"
  by (simp_all add: batchDone_def)

lemma gate_open_same:
  "\<not> requireOpenHandAfterReset s \<Longrightarrow> s\<lparr>requireOpenHandAfterReset := False\<rparr> = s"
  by simp

lemma handle_Frame_cases [case_names unchanged lost fist swipe nohand gesture]:
  obtains
    (unchanged) "handle now (Frame lmo) s = s"
  | (lost) "phaseRef s = Catalog" "lmo = None"
      "handle now (Frame lmo) s = s\<lparr>swipeState := (swipeState s)\<lparr>isTracking := False\<rparr>\<rparr>"
  | (fist) lm where "phaseRef s = Catalog" "\<not> postResetCooldown s" "lmo = Some lm"
      "countExtendedFingers lm = Some 0" "\<not> requireOpenHandAfterReset s"
      "handle now (Frame lmo) s = catalogFist now s"
  | (swipe) lm c p where "phaseRef s = Catalog" "\<not> postResetCooldown s" "lmo = Some lm"
      "countExtendedFingers lm = Some c" "c \<noteq> 0" "requireOpenHandAfterReset s \<longrightarrow> 3 \<le> c"
      "handle now (Frame lmo) s
         = catalogSwipe now (xc (p::landmark)) (s\<lparr>requireOpenHandAfterReset := False\<rparr>)"
  | (nohand) "phaseRef s = Results" "lmo = None"
      "handle now (Frame lmo) s
         = s\<lparr>thumbsUpBuffer := 0, fingerBuffer := [], thumbsUpProgress := 0,
              liveFingerCount := None\<rparr>"
  | (gesture) lm thumbUp c where "phaseRef s = Results" "lmo = Some lm"
      "isThumbsUp lm = Some thumbUp" "countExtendedFingers lm = Some c"
      "handle now (Frame lmo) s = resultsGesture now thumbUp c s"
proof (cases "phaseRef s")
  case Catalog
  show ?thesis
  proof (cases lmo)
    case None
    with Catalog show ?thesis by (intro lost) (simp_all add: processLandmarks_def)
  next
    case (Some lm)
    show ?thesis
    proof (cases "postResetCooldown s \<or> countExtendedFingers lm = None")
      case True
      with Catalog Some show ?thesis by (intro unchanged) (auto simp: processLandmarks_def)
    next
      case False
      then obtain c where c: "countExtendedFingers lm = Some c" and np: "\<not> postResetCooldown s"
        by auto
      show ?thesis
      proof (cases "requireOpenHandAfterReset s \<and> \<not> 3 \<le> c")
        case True
        with Catalog Some c np show ?thesis
          by (intro unchanged) (auto simp: processLandmarks_def)
      next
        case gate: False
        show ?thesis
        proof (cases "c = 0")
          case True
          with gate have "\<not> requireOpenHandAfterReset s" by auto
          with True Catalog Some c np show ?thesis
            by (intro fist [of lm]) (auto simp: processLandmarks_def)
        next
          case nz: False
          show ?thesis
          proof (cases "lmAt lm 9")
            case None
            with nz gate Catalog Some c np show ?thesis
              by (intro unchanged) (auto simp: processLandmarks_def Let_def)
          next
            case (Some p)
            with nz gate Catalog \<open>lmo = Some lm\<close> c np show ?thesis
              by (intro swipe [of lm c p])
                (auto simp: processLandmarks_def Let_def gate_open_same)
          qed
        qed
      qed
    qed
  qed
next
  case Results
  show ?thesis
  proof (cases lmo)
    case None
    with Results show ?thesis by (intro nohand) (simp_all add: processLandmarks_def)
  next
    case (Some lm)
    show ?thesis
    proof (cases "isThumbsUp lm = None \<or> countExtendedFingers lm = None")
      case True
      with Results Some show ?thesis by (intro unchanged) (auto simp: processLandmarks_def)
    next
      case False
      then obtain th c where "isThumbsUp lm = Some th" "countExtendedFingers lm = Some c"
        by auto
      with Results Some show ?thesis
        by (intro gesture [of lm th c]) (auto simp: processLandmarks_def)
    qed
  qed
next
  case Capturing
  then show ?thesis by (intro unchanged) (simp add: processLandmarks_def)
next
  case Generating
  then show ?thesis by (intro unchanged) (simp add: processLandmarks_def)
qed

section \<open>Reset and the post-reset gate\<close>

lemma takePhoto_fields:
  "phase (takePhoto snap s) = (if snap = None then phase s else Generating)"
  "countdown (takePhoto snap s) = (if snap = None then countdown s else None)"
  "phaseRef (takePhoto snap s) = phaseRef s"
  "catalogCooldown (takePhoto snap s) = catalogCooldown s"
  "timers (takePhoto snap s) = timers s"
  "currentIndex (takePhoto snap s) = currentIndex s"
  "postResetCooldown (takePhoto snap s) = postResetCooldown s"
  "requireOpenHandAfterReset (takePhoto snap s) = requireOpenHandAfterReset s"
  "clock (takePhoto snap s) = clock s"
  "calls (takePhoto snap s) = calls s"
  "selectedLookIndex (takePhoto snap s) = selectedLookIndex s"
  "batches (takePhoto snap s)
     = (case (snap, currentItemRef s) of (Some url, Some item) \<Rightarrow> batches s @ [newBatch (scenes item)]
        | _ \<Rightarrow> batches s)"
  "generatedLooks (takePhoto snap s)
     = (case (snap, currentItemRef s) of (Some url, Some item) \<Rightarrow> map loadingLook (scenes item)
        | _ \<Rightarrow> generatedLooks s)"
  by (simp_all add: takePhoto_def startGeneration_fields split: option.splits)

lemma countdownEffect_fields:
  "phase (countdownEffect now snap s) = (if fires snap s then Generating else phase s)"
  "countdown (countdownEffect now snap s) = (if fires snap s then None else countdown s)"
  "phaseRef (countdownEffect now snap s) = phaseRef s"
  "catalogCooldown (countdownEffect now snap s) = catalogCooldown s"
  "currentIndex (countdownEffect now snap s) = currentIndex s"
  "postResetCooldown (countdownEffect now snap s) = postResetCooldown s"
  "requireOpenHandAfterReset (countdownEffect now snap s) = requireOpenHandAfterReset s"
  "clock (countdownEffect now snap s) = clock s"
  "calls (countdownEffect now snap s) = calls s"
  "selectedLookIndex (countdownEffect now snap s) = selectedLookIndex s"
  "batches (countdownEffect now snap s)
     = (if fires snap s
        then (case currentItemRef s of Some item \<Rightarrow> batches s @ [newBatch (scenes item)]
              | None \<Rightarrow> batches s)
        else batches s)"
  "generatedLooks (countdownEffect now snap s)
     = (if fires snap s
        then (case currentItemRef s of Some item \<Rightarrow> map loadingLook (scenes item)
              | None \<Rightarrow> generatedLooks s)
        else generatedLooks s)"
  by (auto simp: countdownEffect_def fires_def takePhoto_fields setTimeout_def Let_def
      split: option.splits)

lemma countdownEffect_timers:
  "cb \<noteq> CountdownTick \<Longrightarrow>
     filter (\<lambda>t. snd t = cb) (timers (countdownEffect now snap s))
       = filter (\<lambda>t. snd t = cb) (timers s)"
  by (auto simp: countdownEffect_def takePhoto_fields setTimeout_def Let_def
      split: option.splits intro: filter_cong)

lemma fires_syncRefs: "fires snap (syncRefs s) = fires snap s"
  by (simp add: fires_def syncRefs_fields)

lemma render_fields:
  "phase (render now snap s) = (if fires snap s then Generating else phase s)"
  "countdown (render now snap s) = (if fires snap s then None else countdown s)"
  "phaseRef (render now snap s) = phase s"
  "catalogCooldown (render now snap s) = catalogCooldown s"
  "currentIndex (render now snap s) = currentIndex s"
  "postResetCooldown (render now snap s) = postResetCooldown s"
  "requireOpenHandAfterReset (render now snap s) = requireOpenHandAfterReset s"
  "clock (render now snap s) = clock s"
  "calls (render now snap s) = calls s"
  "selectedLookIndex (render now snap s) = selectedLookIndex s"
  "batches (render now snap s)
     = (if fires snap s
        then (case arrayAt CATALOG (currentIndex s) of
                Some item \<Rightarrow> batches s @ [newBatch (scenes item)] | None \<Rightarrow> batches s)
        else batches s)"
  "generatedLooks (render now snap s)
     = (if fires snap s
        then (case arrayAt CATALOG (currentIndex s) of
                Some item \<Rightarrow> map loadingLook (scenes item) | None \<Rightarrow> generatedLooks s)
        else generatedLooks s)"
  by (simp_all add: render_def countdownEffect_fields syncRefs_fields fires_syncRefs
      split: option.splits)

lemma render_timers:
  "cb \<noteq> CountdownTick \<Longrightarrow>
     filter (\<lambda>t. snd t = cb) (timers (render now snap s)) = filter (\<lambda>t. snd t = cb) (timers s)"
  by (simp add: render_def countdownEffect_timers syncRefs_fields)

lemma fireTimer_fields:
  "phase (fireTimer k s) = phase s"
  "phaseRef (fireTimer k s) = phaseRef s"
  "batches (fireTimer k s) = batches s"
  "generatedLooks (fireTimer k s) = generatedLooks s"
  "currentIndex (fireTimer k s) = currentIndex s"
  "requireOpenHandAfterReset (fireTimer k s) = requireOpenHandAfterReset s"
  "clock (fireTimer k s) = clock s"
  "calls (fireTimer k s) = calls s"
  "selectedLookIndex (fireTimer k s) = selectedLookIndex s"
  "timers (fireTimer k s) = take k (timers s) @ drop (Suc k) (timers s)"
  "catalogCooldown (fireTimer k s)
     = (if snd (timers s ! k) = ClearCatalogCooldown then False else catalogCooldown s)"
  "postResetCooldown (fireTimer k s)
     = (if snd (timers s ! k) = ClearPostResetCooldown then False else postResetCooldown s)"
  "countdown (fireTimer k s)
     = (if snd (timers s ! k) = CountdownTick
        then (case countdown s of Some c \<Rightarrow> Some (c - 1) | None \<Rightarrow> None) else countdown s)"
  by (cases "snd (timers s ! k)"; simp add: fireTimer_def)+


lemma calls_resultsGesture:
  "count_list (calls (resultsGesture now thumbUp count s)) CallStartCapture
     = count_list (calls s) CallStartCapture"
  by (cases thumbUp) (simp_all add: resultsGesture_thumbUp calls_resultsGesture_noThumb)




lemma filter_remove_nth:
  assumes "k < length xs" "\<not> P (xs ! k)"
  shows "filter P (take k xs @ drop (Suc k) xs) = filter P xs"
proof -
  have "xs = take k xs @ xs ! k # drop (Suc k) xs"
    using assms(1) by (rule id_take_nth_drop)
  then have "filter P xs = filter P (take k xs @ xs ! k # drop (Suc k) xs)"
    by simp
  with assms(2) show ?thesis by simp
qed







lemma clock_step: "clock (step te s) = fst te"
  by (simp add: step_def)


lemma fistHand_facts:
  "length fistHand = 21" "countExtendedFingers fistHand = Some 0"
  "isThumbsUp fistHand = Some False"
  by (simp_all add: fistHand_def length_handOf count_handOf isThumbsUp_handOf)



lemma countFrom_Some_length:
  "countFrom lm fs n = Some c \<Longrightarrow> (tip, pip) \<in> set fs \<Longrightarrow> tip < length lm"
  by (induction fs arbitrary: n)
    (auto simp: dWrist_def lmAt_def split: Option.bind_splits if_splits)

lemma countExtendedFingers_Some_length:
  assumes "countExtendedFingers lm = Some c"
  shows "20 < length lm"
  using countFrom_Some_length [of lm fingers 0 c 20 18] assms
  by (simp add: countExtendedFingers_def zip_tips_pips fingers_def)

text \<open>
  Claim C10. In the catalog phase with the hand-open gate armed, a stream of frames whose
  hands all show fewer than three extended fingers leaves the whole state as it was: no
  call is made (neither a swipe nor a capture), the swipe tracking state is not advanced,
  and the gate stays armed. Once the lockout is over, a frame with at least three extended
  fingers clears the gate.
\<close>

theorem gate_blocks_frames:
  assumes "phaseRef s = Catalog" and "requireOpenHandAfterReset s"
      and "\<forall>f \<in> set fs. \<exists>lm c. snd f = Some lm \<and> countExtendedFingers lm = Some c \<and> c < 3"
  shows "frames fs s = s
       \<and> (\<forall>now lm c. \<not> postResetCooldown s \<and> countExtendedFingers lm = Some c \<and> 3 \<le> c
            \<longrightarrow> \<not> requireOpenHandAfterReset (handle now (Frame (Some lm)) s))"
proof -
  have one: "handle now (Frame (Some lm)) s = s"
    if "countExtendedFingers lm = Some c" "c < 3" for now lm c
    using that assms(1,2) by (simp add: processLandmarks_def)
  have "frames fs s = s"
    using assms(3)
  proof (induction fs)
    case Nil
    then show ?case by simp
  next
    case (Cons f fs)
    obtain now lmo where f: "f = (now, lmo)" by (cases f)
    from Cons.prems f obtain lm c where "lmo = Some lm" "countExtendedFingers lm = Some c" "c < 3"
      by auto
    then have "handle now (Frame lmo) s = s" using one by blast
    with Cons f show ?case by (simp del: handle.simps)
  qed
  moreover have "\<not> requireOpenHandAfterReset (handle now (Frame (Some lm)) s)"
    if "\<not> postResetCooldown s" "countExtendedFingers lm = Some c" "3 \<le> c" for now lm c
  proof -
    have "9 < length lm" using countExtendedFingers_Some_length [OF that(2)] by simp
    with that assms(1,2) show ?thesis
      by (simp add: processLandmarks_def lmAt_def catalogSwipe_fields)
  qed
  ultimately show ?thesis by blast
qed

lemma gateState_facts:
  "phaseRef gateState = Catalog" "requireOpenHandAfterReset gateState"
  "\<not> postResetCooldown gateState"
  by (simp_all add: gateState_def fireTimer_def render_def countdownEffect_def syncRefs_def
        reset_def setTimeout_def called_def resultsState_def initial_def)

theorem gate_blocks_frames_witness:
  "phaseRef gateState = Catalog \<and> requireOpenHandAfterReset gateState
   \<and> \<not> postResetCooldown gateState
   \<and> countExtendedFingers fistHand = Some 0 \<and> countExtendedFingers twoFingers = Some 2
   \<and> frames [(600, Some fistHand), (700, Some twoFingers)] gateState = gateState
   \<and> countExtendedFingers (openHand 0) = Some 4
   \<and> \<not> requireOpenHandAfterReset (handle 800 (Frame (Some (openHand 0))) gateState)"
proof -
  have small: "\<forall>f \<in> set [(600::int, Some fistHand), (700, Some twoFingers)].
      \<exists>lm c. snd f = Some lm \<and> countExtendedFingers lm = Some c \<and> c < 3"
    by (simp add: fistHand_facts twoFingers_facts)
  note main = gate_blocks_frames [OF gateState_facts(1,2) small]
  from main have "frames [(600, Some fistHand), (700, Some twoFingers)] gateState = gateState"
    by blast
  moreover from main gateState_facts(3) openHand_facts(2) [of 0]
  have "\<not> requireOpenHandAfterReset (handle 800 (Frame (Some (openHand 0))) gateState)"
    by force
  ultimately show ?thesis
    using gateState_facts fistHand_facts twoFingers_facts openHand_facts(2) [of 0]
    by (simp del: handle.simps frames.simps)
qed

section \<open>The catalog cooldown\<close>

lemma catalogSwipe_cooldown:
  "(catalogCooldown (catalogSwipe now x s) = catalogCooldown s
      \<and> timers (catalogSwipe now x s) = timers s
      \<and> currentIndex (catalogSwipe now x s) = currentIndex s)
   \<or> (\<not> catalogCooldown s \<and> catalogCooldown (catalogSwipe now x s)
      \<and> timers (catalogSwipe now x s) = timers s @ [(now + 800, ClearCatalogCooldown)])"
  by (auto simp: catalogSwipe_def Let_def goNext_fields goPrev_fields)

lemma captures_catalogSwipe: "captures (catalogSwipe now x s) = captures s"
  by (simp add: captures_def catalogSwipe_def Let_def goNext_fields goPrev_fields)

lemma frame_cooldown:
  "(catalogCooldown (handle t (Frame lmo) s) = catalogCooldown s
      \<and> clears (handle t (Frame lmo) s) = clears s
      \<and> currentIndex (handle t (Frame lmo) s) = currentIndex s
      \<and> captures (handle t (Frame lmo) s) = captures s)
   \<or> (\<not> catalogCooldown s \<and> catalogCooldown (handle t (Frame lmo) s)
      \<and> timers (handle t (Frame lmo) s) = timers s @ [(t + 800, ClearCatalogCooldown)]
      \<and> captures (handle t (Frame lmo) s) = captures s)
   \<or> (\<not> catalogCooldown s \<and> catalogCooldown (handle t (Frame lmo) s)
      \<and> timers (handle t (Frame lmo) s) = timers s @ [(t + 1200, ClearCatalogCooldown)]
      \<and> currentIndex (handle t (Frame lmo) s) = currentIndex s)"
proof (cases rule: handle_Frame_cases [of t lmo s])
  case unchanged
  then show ?thesis by (simp del: handle.simps)
next
  case lost
  then show ?thesis by (simp add: clears_def captures_def del: handle.simps)
next
  case (fist lm)
  then show ?thesis
    by (cases "catalogCooldown s")
       (simp_all add: clears_def captures_def catalogFist_fields del: handle.simps)
next
  case (swipe lm c p)
  let ?s = "s\<lparr>requireOpenHandAfterReset := False\<rparr>"
  from catalogSwipe_cooldown [of t "xc p" ?s] captures_catalogSwipe [of t "xc p" ?s] swipe(7)
  show ?thesis by (auto simp: clears_def captures_def simp del: handle.simps)
next
  case nohand
  then show ?thesis by (simp add: clears_def captures_def del: handle.simps)
next
  case (gesture lm thumbUp c)
  then show ?thesis
    by (simp add: clears_def captures_def resultsGesture_fields calls_resultsGesture
          del: handle.simps)
qed


lemma filter_remove_nth_length:
  assumes "k < length xs" "P (xs ! k)"
  shows "Suc (length (filter P (take k xs @ drop (Suc k) xs))) = length (filter P xs)"
proof -
  have "xs = take k xs @ xs ! k # drop (Suc k) xs"
    using assms(1) by (rule id_take_nth_drop)
  then have "filter P xs = filter P (take k xs @ xs ! k # drop (Suc k) xs)"
    by simp
  with assms(2) show ?thesis by simp
qed

lemma event_clears:
  assumes "\<forall>k. e \<noteq> Timeout k"
  shows "(catalogCooldown (handle t e s) = catalogCooldown s \<and> clears (handle t e s) = clears s)
       \<or> (\<not> catalogCooldown s \<and> catalogCooldown (handle t e s)
           \<and> (\<exists>d. clears (handle t e s) = clears s @ [(d, ClearCatalogCooldown)]))"
proof (cases e)
  case (Frame lmo)
  with frame_cooldown [of t lmo s] show ?thesis
    by (auto simp: clears_def simp del: handle.simps)
next
  case (Render snap)
  then show ?thesis by (simp add: clears_def render_fields render_timers)
next
  case (Timeout k)
  with assms show ?thesis by simp
next
  case ClickPrev
  then show ?thesis by (auto simp: clears_def goPrev_fields)
next
  case ClickNext
  then show ?thesis by (auto simp: clears_def goNext_fields)
next
  case ClickCapture
  then show ?thesis by (simp add: clears_def startCapture_fields)
next
  case (ClickDot i)
  then show ?thesis by (simp add: clears_def)
next
  case ClickReset
  then show ?thesis by (simp add: clears_def reset_fields)
next
  case (ClickLook i)
  then show ?thesis by (simp add: clears_def)
next
  case (LookSettled b i outcome)
  then show ?thesis by (simp add: clears_def lookSettled_fields)
next
  case (BatchDone b)
  then show ?thesis by (simp add: clears_def batchDone_fields)
qed

lemma clears_step: "clears (step te s) = clears (handle (fst te) (snd te) s)"
  by (simp add: clears_def step_def)

lemma catalogCooldown_step:
  "catalogCooldown (step te s) = catalogCooldown (handle (fst te) (snd te) s)"
  by (simp add: step_def)

lemma cooldownInv_step:
  assumes "cooldownInv s" "canStep s te"
  shows "cooldownInv (step te s)"
proof (cases "\<exists>k. snd te = Timeout k")
  case True
  then obtain k where k: "snd te = Timeout k" by blast
  with assms(2) have kl: "k < length (timers s)" by (simp add: canStep_def)
  show ?thesis
  proof (cases "snd (timers s ! k) = ClearCatalogCooldown")
    case True
    have "Suc (length (clears (fireTimer k s))) = length (clears s)"
      unfolding clears_def fireTimer_fields
      using kl True by (intro filter_remove_nth_length) simp_all
    with assms(1) True show ?thesis
      by (auto simp: cooldownInv_def clears_step catalogCooldown_step k fireTimer_fields
          split: if_splits)
  next
    case False
    have "clears (fireTimer k s) = clears s"
      unfolding clears_def fireTimer_fields
      using kl False by (intro filter_remove_nth) simp_all
    with assms(1) False show ?thesis
      by (simp add: cooldownInv_def clears_step catalogCooldown_step k fireTimer_fields)
  qed
next
  case False
  then have "\<forall>k. snd te \<noteq> Timeout k" by blast
  from event_clears [OF this, of "fst te" s] assms(1) show ?thesis
    by (auto simp: cooldownInv_def clears_step catalogCooldown_step split: if_splits)
qed

lemma cooldownInv_run:
  assumes "cooldownInv s" "valid tr s"
  shows "cooldownInv (run tr s)"
  using assms
  by (induction tr arbitrary: s) (auto simp: cooldownInv_step)

lemma cooldownInv_initial: "cooldownInv initial"
  by (simp add: cooldownInv_def clears_def initial_def)

lemma cooling_step:
  assumes "coolingUntil d s" "canStep s te" "fst te < d"
  shows "coolingUntil d (step te s)"
proof (cases "\<exists>k. snd te = Timeout k")
  case True
  then obtain k where k: "snd te = Timeout k" by blast
  with assms(2) have kl: "k < length (timers s)" "fst (timers s ! k) \<le> fst te"
    by (simp_all add: canStep_def)
  have "snd (timers s ! k) \<noteq> ClearCatalogCooldown"
  proof
    assume "snd (timers s ! k) = ClearCatalogCooldown"
    with kl(1) have "timers s ! k \<in> set (clears s)" by (simp add: clears_def)
    with assms(1) have "d \<le> fst (timers s ! k)"
      unfolding coolingUntil_def list_all_iff by blast
    with kl(2) assms(3) show False by simp
  qed
  moreover from this have "clears (fireTimer k s) = clears s"
    unfolding clears_def fireTimer_fields
    using kl(1) by (intro filter_remove_nth) simp_all
  ultimately show ?thesis
    using assms(1)
    by (simp add: coolingUntil_def clears_step catalogCooldown_step k fireTimer_fields)
next
  case False
  then have "\<forall>k. snd te \<noteq> Timeout k" by blast
  from event_clears [OF this, of "fst te" s] assms(1) show ?thesis
    by (auto simp: coolingUntil_def clears_step catalogCooldown_step)
qed

lemma cooling_run:
  assumes "coolingUntil d s" "valid tr s" "\<forall>te \<in> set tr. fst te < d"
  shows "coolingUntil d (run tr s)"
  using assms
  by (induction tr arbitrary: s) (auto simp: cooling_step)


lemma frame_blocked:
  assumes "catalogCooldown s"
  shows "captures (handle t (Frame lmo) s) = captures s"
    and "currentIndex (handle t (Frame lmo) s) = currentIndex s"
  using frame_cooldown [of t lmo s] assms by blast+

text \<open>
  Claim C9. In every reachable state, swipe navigation and fist-triggered capture go
  through the one flag \<open>catalogCooldown\<close>. When a frame at time \<open>t0\<close> changes the browse
  index (a catalog swipe fires), the flag is set in every valid run that follows whose
  events all come before \<open>t0 + 800\<close>, and a frame there never calls \<open>startCapture\<close>.
  When a frame at time \<open>t0\<close> calls \<open>startCapture\<close> (a fist triggers capture), the flag is
  set in every valid run that follows whose events all come before \<open>t0 + 1200\<close>, and a
  frame there never changes the browse index.
\<close>

theorem shared_cooldown:
  assumes "valid tr0 initial" and "s = run tr0 initial"
      and "canStep s (t0, Frame lmo)" and "s1 = step (t0, Frame lmo) s"
      and "valid tr s1" and "s2 = run tr s1"
  shows "(currentIndex s1 \<noteq> currentIndex s \<and> (\<forall>te \<in> set tr. fst te < t0 + 800)
            \<longrightarrow> catalogCooldown s2
                \<and> (\<forall>t lmo'. captures (handle t (Frame lmo') s2) = captures s2))
       \<and> (captures s1 \<noteq> captures s \<and> (\<forall>te \<in> set tr. fst te < t0 + 1200)
            \<longrightarrow> catalogCooldown s2
                \<and> (\<forall>t lmo'. currentIndex (handle t (Frame lmo') s2) = currentIndex s2))"
proof -
  have inv: "cooldownInv s"
    using cooldownInv_run [OF cooldownInv_initial assms(1)] assms(2) by simp
  have s1: "currentIndex s1 = currentIndex (handle t0 (Frame lmo) s)"
    "captures s1 = captures (handle t0 (Frame lmo) s)"
    "catalogCooldown s1 = catalogCooldown (handle t0 (Frame lmo) s)"
    "timers s1 = timers (handle t0 (Frame lmo) s)"
    by (simp_all add: assms(4) step_def captures_def del: handle.simps)
  have none: "clears s = []" if "\<not> catalogCooldown s"
    using inv that by (simp add: cooldownInv_def)
  have swipe: "coolingUntil (t0 + 800) s1" if "currentIndex s1 \<noteq> currentIndex s"
    using frame_cooldown [of t0 lmo s] that none
    by (auto simp: s1 coolingUntil_def clears_def simp del: handle.simps)
  have capture: "coolingUntil (t0 + 1200) s1" if "captures s1 \<noteq> captures s"
    using frame_cooldown [of t0 lmo s] that none
    by (auto simp: s1 coolingUntil_def clears_def simp del: handle.simps)
  have a: "catalogCooldown s2" if "currentIndex s1 \<noteq> currentIndex s"
    "\<forall>te \<in> set tr. fst te < t0 + 800"
    using cooling_run [OF swipe [OF that(1)] assms(5) that(2)] assms(6)
    by (simp add: coolingUntil_def)
  have b: "catalogCooldown s2" if "captures s1 \<noteq> captures s"
    "\<forall>te \<in> set tr. fst te < t0 + 1200"
    using cooling_run [OF capture [OF that(1)] assms(5) that(2)] assms(6)
    by (simp add: coolingUntil_def)
  from a b show ?thesis
    using frame_blocked by blast
qed


lemma length_CATALOG: "length CATALOG = 10"
  by (simp add: CATALOG_def)

lemma lmAt_openHand_9: "lmAt (openHand x) 9 = Some (pt x 0)"
  by (simp add: lmAt_def openHand_def handOf_def)

lemma swipe_run_facts:
  "run [(0, Frame (Some (openHand 0)))] initial
     = initial\<lparr>swipeState := \<lparr>startX = 0, startTime = 0, isTracking = True\<rparr>, clock := 0\<rparr>"
  "currentIndex (step (100, Frame (Some (openHand (- 0.16))))
       (run [(0, Frame (Some (openHand 0)))] initial)) = 1"
  "currentIndex (run [(0, Frame (Some (openHand 0)))] initial) = 0"
proof -
  show a: "run [(0, Frame (Some (openHand 0)))] initial
     = initial\<lparr>swipeState := \<lparr>startX = 0, startTime = 0, isTracking = True\<rparr>, clock := 0\<rparr>"
    by (simp add: step_def processLandmarks_def openHand_facts lmAt_openHand_9 pt_def
          catalogSwipe_def initial_def)
  show "currentIndex (step (100, Frame (Some (openHand (- 0.16))))
       (run [(0, Frame (Some (openHand 0)))] initial)) = 1"
    unfolding a
    by (simp add: step_def processLandmarks_def openHand_facts lmAt_openHand_9 pt_def
          catalogSwipe_def goNext_def setTimeout_def called_def initial_def length_CATALOG)
  show "currentIndex (run [(0, Frame (Some (openHand 0)))] initial) = 0"
    unfolding a by (simp add: initial_def)
qed

lemma capture_step_facts:
  "captures initial = 0" "captures (step (0, Frame (Some fistHand)) initial) = 1"
  by (simp_all add: captures_def step_def processLandmarks_def fistHand_facts catalogFist_def
        startCapture_def setTimeout_def called_def initial_def)

theorem shared_cooldown_witness:
  "valid [(0, Frame (Some (openHand 0)))] initial
   \<and> canStep (run [(0, Frame (Some (openHand 0)))] initial)
        (100, Frame (Some (openHand (- 0.16))))
   \<and> valid [(200, Render None)]
        (step (100, Frame (Some (openHand (- 0.16))))
           (run [(0, Frame (Some (openHand 0)))] initial))
   \<and> currentIndex (step (100, Frame (Some (openHand (- 0.16))))
           (run [(0, Frame (Some (openHand 0)))] initial))
        \<noteq> currentIndex (run [(0, Frame (Some (openHand 0)))] initial)
   \<and> catalogCooldown (run [(200, Render None)]
        (step (100, Frame (Some (openHand (- 0.16))))
           (run [(0, Frame (Some (openHand 0)))] initial)))
   \<and> captures (handle 300 (Frame (Some fistHand))
        (run [(200, Render None)]
          (step (100, Frame (Some (openHand (- 0.16))))
             (run [(0, Frame (Some (openHand 0)))] initial))))
      = captures (run [(200, Render None)]
          (step (100, Frame (Some (openHand (- 0.16))))
             (run [(0, Frame (Some (openHand 0)))] initial)))
   \<and> canStep initial (0, Frame (Some fistHand))
   \<and> captures (step (0, Frame (Some fistHand)) initial) \<noteq> captures initial
   \<and> valid [(100, Frame (Some (openHand 0)))] (step (0, Frame (Some fistHand)) initial)
   \<and> currentIndex (handle 200 (Frame (Some (openHand (- 0.16))))
        (run [(100, Frame (Some (openHand 0)))] (step (0, Frame (Some fistHand)) initial)))
      = currentIndex
          (run [(100, Frame (Some (openHand 0)))] (step (0, Frame (Some fistHand)) initial))"
proof -
  let ?pre = "[(0::int, Frame (Some (openHand 0)))]"
  let ?s = "run ?pre initial"
  let ?s1 = "step (100, Frame (Some (openHand (- 0.16)))) ?s"
  let ?tr = "[(200::int, Render None)]"
  let ?s2 = "run ?tr ?s1"
  have v0: "valid ?pre initial"
    by (simp add: canStep_def initial_def)
  have c0: "canStep ?s (100, Frame (Some (openHand (- 0.16))))"
    by (simp add: canStep_def clock_step)
  have v1: "valid ?tr ?s1"
    by (simp add: canStep_def clock_step)
  have moved: "currentIndex ?s1 \<noteq> currentIndex ?s"
    using swipe_run_facts(2,3) by simp
  have early: "\<forall>te \<in> set ?tr. fst te < 100 + 800" by simp
  note a = shared_cooldown [OF v0 refl c0 refl v1 refl]
  from a moved early have a1: "catalogCooldown ?s2"
    "captures (handle 300 (Frame (Some fistHand)) ?s2) = captures ?s2"
    by blast+
  let ?u1 = "step (0, Frame (Some fistHand)) initial"
  let ?tr' = "[(100::int, Frame (Some (openHand 0)))]"
  let ?u2 = "run ?tr' ?u1"
  have w0: "valid [] initial" by simp
  have d0: "canStep initial (0, Frame (Some fistHand))"
    by (simp add: canStep_def initial_def)
  have w1: "valid ?tr' ?u1"
    by (simp add: canStep_def clock_step)
  have captured: "captures ?u1 \<noteq> captures initial"
    using capture_step_facts by simp
  have early': "\<forall>te \<in> set ?tr'. fst te < 0 + 1200" by simp
  have r0: "initial = run [] initial" by simp
  note b = shared_cooldown [OF w0 r0 d0 refl w1 refl]
  from b captured early'
  have b1: "currentIndex (handle 200 (Frame (Some (openHand (- 0.16)))) ?u2) = currentIndex ?u2"
    by (simp del: handle.simps run.simps valid.simps)
  from v0 c0 v1 moved a1 d0 captured w1 b1 show ?thesis
    by (simp del: handle.simps run.simps valid.simps)
qed

section \<open>The phases\<close>

lemma inv_initial: "inv initial"
  by (simp add: inv_def initial_def)

lemma lookOk_settledLook: "lookOk sc (settledLook sc outcome)"
  by (simp add: lookOk_def settledLook_def split: option.splits)

lemma batchOk_newBatch: "batchOk (newBatch scs)"
  by (simp add: batchOk_def newBatch_def)

lemma batchOk_settleLook:
  assumes "batchOk b" "\<not> finished b"
  shows "batchOk (settleLook index outcome b)"
proof -
  have "lookOk (batchScenes b ! i)
          ((batchResults b)[index := settledLook (batchScenes b ! index) outcome] ! i)"
    if "i < length (batchScenes b)" "(settled b)[index := True] ! i" for i
  proof (cases "i = index")
    case True
    with that assms(1) show ?thesis
      by (simp add: batchOk_def lookOk_settledLook)
  next
    case False
    with that assms(1) show ?thesis
      by (simp add: batchOk_def)
  qed
  with assms show ?thesis
    by (simp add: batchOk_def settleLook_def)
qed

lemma allSettled_iff: "allSettled b = (\<forall>i < length (settled b). settled b ! i)"
  by (simp add: allSettled_def list_all_length)

lemma inv_Frame:
  assumes "inv s"
  shows "inv (handle t (Frame lmo) s)"
proof (cases rule: handle_Frame_cases [of t lmo s])
  case unchanged
  with assms show ?thesis by (simp del: handle.simps)
next
  case lost
  with assms show ?thesis by (simp add: inv_def del: handle.simps)
next
  case (fist lm)
  with assms show ?thesis
    by (auto simp: inv_def catalogFist_fields simp del: handle.simps)
next
  case (swipe lm c p)
  with assms show ?thesis
    by (simp add: inv_def catalogSwipe_fields del: handle.simps)
next
  case nohand
  with assms show ?thesis by (simp add: inv_def del: handle.simps)
next
  case (gesture lm thumbUp c)
  with assms show ?thesis
    by (auto simp: inv_def resultsGesture_fields simp del: handle.simps)
qed


lemma list_all_update: "list_all P xs \<Longrightarrow> P y \<Longrightarrow> list_all P (xs[b := y])"
  unfolding list_all_iff using set_update_subset_insert [of xs b y] by auto

lemma newBatch_fields:
  "batchResults (newBatch scs) = map loadingLook scs" "finished (newBatch scs) = False"
  "batchScenes (newBatch scs) = scs" "settled (newBatch scs) = map (\<lambda>_. False) scs"
  by (simp_all add: newBatch_def)

lemma inv_Render:
  assumes "inv s"
  shows "inv (render t snap s)"
proof (cases "fires snap s")
  case False
  with assms show ?thesis by (simp add: inv_def render_fields)
next
  case True
  then have "countdown s = Some 0" by (simp add: fires_def)
  with assms have cap: "phase s = Capturing" by (simp add: inv_def)
  with assms have fin: "\<forall>i < length (batches s). finished (batches s ! i)"
    by (auto simp: inv_def)
  show ?thesis
  proof (cases "arrayAt CATALOG (currentIndex s)")
    case None
    with True assms cap fin show ?thesis by (simp add: inv_def render_fields)
  next
    case (Some item)
    with True assms cap fin show ?thesis
      by (auto simp: inv_def render_fields nth_append batchOk_newBatch newBatch_fields)
  qed
qed

lemma inv_Timeout:
  assumes "inv s"
  shows "inv (fireTimer k s)"
  using assms by (auto simp: inv_def fireTimer_fields split: option.splits)

lemma unfinished_is_last:
  assumes "inv s" "b < length (batches s)" "\<not> finished (batches s ! b)"
  shows "Suc b = length (batches s)" "phase s = Generating"
    "generatedLooks s = batchResults (batches s ! b)" "countdown s = None"
    "phaseRef s \<noteq> Results" "phaseRef s \<noteq> Catalog"
    "\<forall>i < length (batches s). i \<noteq> b \<longrightarrow> finished (batches s ! i)"
proof -
  from assms show "Suc b = length (batches s)" "phase s = Generating"
    "generatedLooks s = batchResults (batches s ! b)"
    by (simp_all add: inv_def)
  with assms(1) show "countdown s = None" "phaseRef s \<noteq> Results" "phaseRef s \<noteq> Catalog"
    by (auto simp: inv_def)
  show "\<forall>i < length (batches s). i \<noteq> b \<longrightarrow> finished (batches s ! i)"
  proof (intro allI impI)
    fix i assume i: "i < length (batches s)" "i \<noteq> b"
    show "finished (batches s ! i)"
    proof (rule ccontr)
      assume "\<not> finished (batches s ! i)"
      with assms(1) i(1) have "Suc i = length (batches s)" by (simp add: inv_def)
      with \<open>Suc b = length (batches s)\<close> i(2) show False by simp
    qed
  qed
qed

lemma inv_LookSettled:
  assumes "inv s" "enabled t s (LookSettled b index outcome)"
  shows "inv (lookSettled b index outcome s)"
proof -
  from assms(2) have b: "b < length (batches s)" "index < length (settled (batches s ! b))"
    "\<not> settled (batches s ! b) ! index"
    by simp_all
  from assms(1) b(1) have ok: "batchOk (batches s ! b)"
    by (simp add: inv_def list_all_length)
  with b(2,3) have unf: "\<not> finished (batches s ! b)"
    by (auto simp: batchOk_def allSettled_iff)
  note last = unfinished_is_last [OF assms(1) b(1) unf]
  have fin: "finished (settleLook index outcome (batches s ! b)) = finished (batches s ! b)"
    by (simp add: settleLook_def)
  have ok': "batchOk (settleLook index outcome (batches s ! b))"
    using ok unf by (rule batchOk_settleLook)
  have all: "list_all batchOk ((batches s)[b := settleLook index outcome (batches s ! b)])"
    using assms(1) ok' by (simp add: inv_def list_all_update)
  from last all fin b(1) assms(1) show ?thesis
    by (auto simp: inv_def lookSettled_fields nth_list_update)
qed

lemma inv_BatchDone:
  assumes "inv s" "enabled t s (BatchDone b)"
  shows "inv (batchDone b s)"
proof -
  from assms(2) have b: "b < length (batches s)" "allSettled (batches s ! b)"
    "\<not> finished (batches s ! b)"
    by simp_all
  note last = unfinished_is_last [OF assms(1) b(1) b(3)]
  from assms(1) b(1) have ok: "batchOk (batches s ! b)"
    by (simp add: inv_def list_all_length)
  with b(2) have ok': "batchOk ((batches s ! b)\<lparr>finished := True\<rparr>)"
    by (simp add: batchOk_def allSettled_def)
  have all: "list_all batchOk ((batches s)[b := (batches s ! b)\<lparr>finished := True\<rparr>])"
    using assms(1) ok' by (simp add: inv_def list_all_update)
  from last all b(1) show ?thesis
    by (auto simp: inv_def batchDone_fields nth_list_update)
qed

lemma inv_handle:
  assumes "inv s" "enabled t s e"
  shows "inv (handle t e s)"
proof (cases e)
  case (Frame lmo)
  with assms show ?thesis by (simp add: inv_Frame del: handle.simps)
next
  case (Render snap)
  with assms show ?thesis by (simp add: inv_Render)
next
  case (Timeout k)
  with assms show ?thesis by (simp add: inv_Timeout)
next
  case ClickPrev
  with assms show ?thesis by (simp add: inv_def goPrev_fields)
next
  case ClickNext
  with assms show ?thesis by (simp add: inv_def goNext_fields)
next
  case ClickCapture
  with assms show ?thesis by (auto simp: inv_def startCapture_fields)
next
  case (ClickDot i)
  with assms show ?thesis by (simp add: inv_def)
next
  case ClickReset
  with assms show ?thesis by (auto simp: inv_def reset_fields)
next
  case (ClickLook i)
  with assms show ?thesis by (simp add: inv_def)
next
  case (LookSettled b i outcome)
  with assms show ?thesis by (simp add: inv_LookSettled)
next
  case (BatchDone b)
  with assms show ?thesis by (simp add: inv_BatchDone)
qed

lemma inv_clock: "inv (s\<lparr>clock := t\<rparr>) = inv s"
  by (simp add: inv_def)

lemma inv_step:
  assumes "inv s" "canStep s te"
  shows "inv (step te s)"
  using assms inv_handle [of s "fst te" "snd te"]
  by (simp add: step_def canStep_def inv_clock)

lemma inv_run:
  assumes "inv s" "valid tr s"
  shows "inv (run tr s)"
  using assms
  by (induction tr arbitrary: s) (auto simp: inv_step)


lemmas handler_defs =
  step_def canStep_def processLandmarks_def catalogFist_def startCapture_def setTimeout_def
  called_def render_def syncRefs_def countdownEffect_def takePhoto_def startGeneration_def
  fireTimer_def lookSettled_def batchDone_def reset_def settleLook_def newBatch_def
  allSettled_def arrayAt_def length_CATALOG COUNTDOWN_SECONDS_def

lemma scenes_CATALOG_0: "scenes (CATALOG ! 0) = SCENES"
  by (simp add: CATALOG_def)

lemma capturedPhoto_render:
  "capturedPhoto (render t snap s) = (if fires snap s then snap else capturedPhoto s)"
  by (auto simp: render_def countdownEffect_def syncRefs_def takePhoto_def
        startGeneration_def setTimeout_def fires_def Let_def split: option.splits)

lemma frame_phase:
  "phase (handle t (Frame lmo) s) = phase s
   \<or> (phaseRef s = Catalog \<and> phase (handle t (Frame lmo) s) = Capturing
       \<and> calls (handle t (Frame lmo) s) = calls s @ [CallStartCapture])
   \<or> (phaseRef s = Results \<and> phase (handle t (Frame lmo) s) = Catalog
       \<and> calls (handle t (Frame lmo) s) = calls s @ [CallReset])"
proof (cases rule: handle_Frame_cases [of t lmo s])
  case unchanged
  then show ?thesis by (simp del: handle.simps)
next
  case lost
  then show ?thesis by (simp del: handle.simps)
next
  case (fist lm)
  then show ?thesis by (simp add: catalogFist_fields del: handle.simps)
next
  case (swipe lm c p)
  then show ?thesis by (simp add: catalogSwipe_fields del: handle.simps)
next
  case nohand
  then show ?thesis by (simp del: handle.simps)
next
  case (gesture lm thumbUp c)
  then show ?thesis
    by (cases thumbUp)
       (simp_all add: resultsGesture_fields resultsGesture_thumbUp del: handle.simps)
qed

text \<open>
  Claim C2. In every reachable state the phase is one of catalog, capturing, generating
  and results, and every event that can happen either leaves the phase as it is or takes
  one of four edges: catalog to capturing by a call of \<open>startCapture\<close>, capturing to
  generating by the commit that takes the photo, generating to results by the resumption
  of \<open>startGeneration\<close> after its batch has settled, and results to catalog by a call of
  \<open>reset\<close>.
\<close>

theorem phase_edges:
  assumes "valid tr initial" and "s = run tr initial"
      and "canStep s te" and "s' = step te s"
  shows "(phase s = Catalog \<or> phase s = Capturing \<or> phase s = Generating \<or> phase s = Results)
       \<and> (phase s' = phase s
          \<or> (phase s = Catalog \<and> phase s' = Capturing
              \<and> calls s' = calls s @ [CallStartCapture])
          \<or> (phase s = Capturing \<and> phase s' = Generating
              \<and> (\<exists>url. snd te = Render (Some url) \<and> capturedPhoto s' = Some url))
          \<or> (phase s = Generating \<and> phase s' = Results
              \<and> (\<exists>b. snd te = BatchDone b \<and> allSettled (batches s ! b)))
          \<or> (phase s = Results \<and> phase s' = Catalog \<and> calls s' = calls s @ [CallReset]))"
proof -
  have inv: "inv s"
    using inv_run [OF inv_initial assms(1)] assms(2) by simp
  have en: "enabled (fst te) s (snd te)"
    using assms(3) by (simp add: canStep_def)
  have s': "phase s' = phase (handle (fst te) (snd te) s)"
    "calls s' = calls (handle (fst te) (snd te) s)"
    "capturedPhoto s' = capturedPhoto (handle (fst te) (snd te) s)"
    by (simp_all add: assms(4) step_def)
  have some: "phase s = Catalog \<or> phase s = Capturing \<or> phase s = Generating \<or> phase s = Results"
    by (cases "phase s") simp_all
  have edge: "phase s' = phase s
          \<or> (phase s = Catalog \<and> phase s' = Capturing
              \<and> calls s' = calls s @ [CallStartCapture])
          \<or> (phase s = Capturing \<and> phase s' = Generating
              \<and> (\<exists>url. snd te = Render (Some url) \<and> capturedPhoto s' = Some url))
          \<or> (phase s = Generating \<and> phase s' = Results
              \<and> (\<exists>b. snd te = BatchDone b \<and> allSettled (batches s ! b)))
          \<or> (phase s = Results \<and> phase s' = Catalog \<and> calls s' = calls s @ [CallReset])"
  proof (cases "snd te")
    case (Frame lmo)
    from frame_phase [of "fst te" lmo s] inv show ?thesis
      unfolding s' Frame by (auto simp: inv_def simp del: handle.simps)
  next
    case (Render snap)
    show ?thesis
    proof (cases "fires snap s")
      case False
      then show ?thesis by (simp add: s' Render render_fields)
    next
      case True
      then have "countdown s = Some 0" "snap \<noteq> None" by (simp_all add: fires_def)
      moreover from this inv have "phase s = Capturing" by (simp add: inv_def)
      ultimately show ?thesis
        using True by (auto simp: s' Render render_fields capturedPhoto_render)
    qed
  next
    case (Timeout k)
    then show ?thesis by (simp add: s' fireTimer_fields)
  next
    case ClickPrev
    then show ?thesis by (simp add: s' goPrev_fields)
  next
    case ClickNext
    then show ?thesis by (simp add: s' goNext_fields)
  next
    case ClickCapture
    with en show ?thesis by (simp add: s' startCapture_fields)
  next
    case (ClickDot i)
    then show ?thesis by (simp add: s')
  next
    case ClickReset
    with en show ?thesis by (simp add: s' reset_fields)
  next
    case (ClickLook i)
    then show ?thesis by (simp add: s')
  next
    case (LookSettled b i outcome)
    then show ?thesis by (simp add: s' lookSettled_fields)
  next
    case (BatchDone b)
    with en have b: "b < length (batches s)" "allSettled (batches s ! b)"
      "\<not> finished (batches s ! b)"
      by simp_all
    from unfinished_is_last(2) [OF inv b(1) b(3)] b(2) BatchDone show ?thesis
      by (simp add: s' batchDone_fields)
  qed
  from some edge show ?thesis by blast
qed

lemma cycle_valid: "valid cycle initial"
  unfolding cycle_def
  by (simp add: handler_defs fistHand_facts initial_def scenes_CATALOG_0 SCENES_def
        loadingLook_def settledLook_def)


lemmas cycle_eval =
  handler_defs fistHand_facts initial_def scenes_CATALOG_0 SCENES_def loadingLook_def
  settledLook_def

lemma cycle_phases:
  "valid (take 14 cycle) initial"
  "canStep (run (take 14 cycle) initial) (4000, ClickReset)"
  "phase initial = Catalog"
  "phase (run (take 1 cycle) initial) = Capturing"
  "phase (run (take 8 cycle) initial) = Generating"
  "phase (run (take 13 cycle) initial) = Results"
  "phase (run (take 14 cycle) initial) = Results"
  "phase (step (4000, ClickReset) (run (take 14 cycle) initial)) = Catalog"
  unfolding cycle_def by (simp_all add: cycle_eval)

theorem phase_edges_witness:
  "valid (take 14 cycle) initial
   \<and> canStep (run (take 14 cycle) initial) (4000, ClickReset)
   \<and> phase initial = Catalog
   \<and> phase (run (take 1 cycle) initial) = Capturing
   \<and> phase (run (take 8 cycle) initial) = Generating
   \<and> phase (run (take 13 cycle) initial) = Results
   \<and> phase (run (take 14 cycle) initial) = Results
   \<and> phase (step (4000, ClickReset) (run (take 14 cycle) initial)) = Catalog
   \<and> calls (step (4000, ClickReset) (run (take 14 cycle) initial))
       = calls (run (take 14 cycle) initial) @ [CallReset]"
proof -
  note main = phase_edges [OF cycle_phases(1) refl cycle_phases(2) refl]
  from main cycle_phases(7,8)
  have "calls (step (4000, ClickReset) (run (take 14 cycle) initial))
       = calls (run (take 14 cycle) initial) @ [CallReset]"
    by simp
  with cycle_phases show ?thesis by simp
qed

section \<open>The generation batch\<close>













section \<open>Completions and the result set\<close>





end
